theory Spec2Isabelle
  imports Complex_Main
begin

section \<open>The CSP data model used by the propagators\<close>

text \<open>
  The propagators of \<^verbatim>\<open>A2/csp/propagators.py\<close> work on \<^verbatim>\<open>Variable\<close>,
  \<^verbatim>\<open>Constraint\<close> and \<^verbatim>\<open>CSP\<close> objects of the module \<^verbatim>\<open>cspbase\<close>, which is
  imported by the sources but is not among them. These three classes are modelled from
  the specification (its data model and its capability surfaces); the propagators
  themselves are translated from their source.

  A Python object has an identity and a mutable state. A \<^verbatim>\<open>Variable\<close> object is
  named by its identity (a natural number); its mutable state lives in a store that the
  propagators take and return. A \<^verbatim>\<open>Constraint\<close> is never mutated by a propagator, so
  it is a value that carries its identity in the field \<open>cid\<close>: Python's
  \<^verbatim>\<open>constr not in queue\<close> compares objects by identity, which is equality of
  these values.
\<close>

type_synonym var = nat
type_synonym val = int

text \<open>
  Modelled from the spec: the class \<^verbatim>\<open>Variable\<close> (missing from the sources). It has
  an original domain, a current domain (a subset of the original one, shrunk by
  pruning) and an optional assigned value.
\<close>

record variable =
  original_domain :: "val list"
  current_domain :: "val list"
  assigned_value :: "val option"

type_synonym store = "var \<Rightarrow> variable"

text \<open>
  Modelled from the spec: \<^verbatim>\<open>Variable.cur_domain()\<close>, the ordered sequence of the values
  of the current domain.
\<close>

definition cur_domain :: "store \<Rightarrow> var \<Rightarrow> val list" where
  "cur_domain \<sigma> x = current_domain (\<sigma> x)"

text \<open>
  Modelled from the spec: \<^verbatim>\<open>Variable.get_assigned_value()\<close>, the optional assigned
  value (Python's \<^verbatim>\<open>None\<close> when the variable is unassigned).
\<close>

definition get_assigned_value :: "store \<Rightarrow> var \<Rightarrow> val option" where
  "get_assigned_value \<sigma> x = assigned_value (\<sigma> x)"

text \<open>
  Modelled from the spec: \<^verbatim>\<open>Variable.prune_value(value)\<close>, which removes the value
  from the current domain if it is present and changes nothing else.
\<close>

definition prune_value :: "store \<Rightarrow> var \<Rightarrow> val \<Rightarrow> store" where
  "prune_value \<sigma> x d =
     \<sigma>(x := (\<sigma> x)\<lparr>current_domain := removeAll d (current_domain (\<sigma> x))\<rparr>)"

text \<open>
  Modelled from the spec: the class \<^verbatim>\<open>Constraint\<close> (missing from the sources): an
  ordered scope of variables and the table of the satisfying tuples, in scope order.
\<close>

record constraint =
  cid :: nat
  scope :: "var list"
  satisfying_tuples :: "val list list"

text \<open>Modelled from the spec: \<^verbatim>\<open>Constraint.get_scope()\<close>, the scope in its order.\<close>

definition get_scope :: "constraint \<Rightarrow> var list" where
  "get_scope c = scope c"

text \<open>
  Modelled from the spec: \<^verbatim>\<open>Constraint.check(values_in_scope_order)\<close>, membership of
  the given tuple in the table of satisfying tuples. The propagators build the tuple
  from \<^verbatim>\<open>get_assigned_value()\<close> results, so an entry can be \<^verbatim>\<open>None\<close>; such a
  tuple equals no tuple of values.
\<close>

definition check :: "constraint \<Rightarrow> val option list \<Rightarrow> bool" where
  "check c vals = list_ex (\<lambda>t. map Some t = vals) (satisfying_tuples c)"

text \<open>
  Modelled from the spec: \<^verbatim>\<open>Constraint.get_n_unasgn()\<close> and
  \<^verbatim>\<open>Constraint.get_unasgn_vars()\<close>, the number and the list (in scope order) of the
  unassigned variables of the scope.
\<close>

definition get_unasgn_vars :: "store \<Rightarrow> constraint \<Rightarrow> var list" where
  "get_unasgn_vars \<sigma> c = filter (\<lambda>v. assigned_value (\<sigma> v) = None) (scope c)"

definition get_n_unasgn :: "store \<Rightarrow> constraint \<Rightarrow> nat" where
  "get_n_unasgn \<sigma> c = length (get_unasgn_vars \<sigma> c)"

text \<open>
  Modelled from the spec: \<^verbatim>\<open>Constraint.has_support(variable, value)\<close>: there is a
  satisfying tuple of the constraint in which the position of the variable holds the
  value and the value at every other position is in the current domain of the variable
  of that position. Tuples have the length of the scope (the invariant of the data
  model); a tuple of another length supports nothing.
\<close>

definition tuple_supports :: "store \<Rightarrow> var list \<Rightarrow> var \<Rightarrow> val \<Rightarrow> val list \<Rightarrow> bool" where
  "tuple_supports \<sigma> sc x d t =
     (length t = length sc \<and>
      list_all (\<lambda>(u, a). if u = x then a = d else a \<in> set (cur_domain \<sigma> u)) (zip sc t))"

definition has_support :: "store \<Rightarrow> constraint \<Rightarrow> var \<Rightarrow> val \<Rightarrow> bool" where
  "has_support \<sigma> c x d =
     (x \<in> set (scope c) \<and> list_ex (tuple_supports \<sigma> (scope c) x d) (satisfying_tuples c))"

text \<open>
  Modelled from the spec: the class \<^verbatim>\<open>CSP\<close> (missing from the sources): the variable
  list, the constraint list, and the lookup of the constraints whose scope contains a
  variable (\<^verbatim>\<open>get_all_cons\<close>, \<^verbatim>\<open>get_cons_with_var\<close>).
\<close>

record csp =
  variables :: "var list"
  constraints :: "constraint list"

definition get_all_cons :: "csp \<Rightarrow> constraint list" where
  "get_all_cons p = constraints p"

definition get_cons_with_var :: "csp \<Rightarrow> var \<Rightarrow> constraint list" where
  "get_cons_with_var p x = filter (\<lambda>c. x \<in> set (scope c)) (constraints p)"

type_synonym prunings = "(var \<times> val) list"

section \<open>Plain backtracking: \<^verbatim>\<open>prop_BT\<close>\<close>

text \<open>
  The loop of \<^verbatim>\<open>prop_BT\<close> over \<^verbatim>\<open>csp.get_cons_with_var(newVar)\<close>; the
  \<^verbatim>\<open>return False, []\<close> inside the loop is the early exit.
\<close>

fun prop_BT_loop :: "store \<Rightarrow> constraint list \<Rightarrow> bool \<times> prunings" where
  "prop_BT_loop \<sigma> [] = (True, [])"
| "prop_BT_loop \<sigma> (c # cs) =
     (if get_n_unasgn \<sigma> c = 0 then
        (let vals = map (get_assigned_value \<sigma>) (get_scope c)
         in if \<not> check c vals then (False, []) else prop_BT_loop \<sigma> cs)
      else prop_BT_loop \<sigma> cs)"

text \<open>
  A propagator returns its flag, its list of prunings and the store it leaves behind.
  \<^verbatim>\<open>prop_BT\<close> calls no mutating method, so it returns the store it was given.
\<close>

definition prop_BT :: "csp \<Rightarrow> var option \<Rightarrow> store \<Rightarrow> bool \<times> prunings \<times> store" where
  "prop_BT p newVar \<sigma> =
     (case newVar of
        None \<Rightarrow> (True, [], \<sigma>)
      | Some v \<Rightarrow>
          (let (ok, pruned) = prop_BT_loop \<sigma> (get_cons_with_var p v) in (ok, pruned, \<sigma>)))"

section \<open>Forward checking: \<^verbatim>\<open>prop_FC\<close> and \<^verbatim>\<open>FCCheck\<close>\<close>

text \<open>
  The loop of \<^verbatim>\<open>FCCheck(c, x)\<close> over the snapshot \<^verbatim>\<open>x.cur_domain()\<close>. Each
  iteration builds the tuple \<^verbatim>\<open>valued_assigned\<close> in scope order (the value tried for
  \<open>x\<close>, the assigned value for every other variable of the scope), prunes the value when
  \<^verbatim>\<open>c.check\<close> fails, and then tests the current domain of \<open>x\<close>: an empty domain is
  the early \<^verbatim>\<open>return True, pruned_vals\<close>.
\<close>

definition valued_assigned :: "store \<Rightarrow> constraint \<Rightarrow> var \<Rightarrow> val \<Rightarrow> val option list" where
  "valued_assigned \<sigma> c x domain_member =
     map (\<lambda>v. if v = x then Some domain_member else get_assigned_value \<sigma> v) (get_scope c)"

fun FCCheck_loop ::
  "constraint \<Rightarrow> var \<Rightarrow> val list \<Rightarrow> store \<Rightarrow> prunings \<Rightarrow> bool \<times> prunings \<times> store" where
  "FCCheck_loop c x [] \<sigma> pruned_vals = (False, pruned_vals, \<sigma>)"
| "FCCheck_loop c x (domain_member # rest) \<sigma> pruned_vals =
     (if \<not> check c (valued_assigned \<sigma> c x domain_member) then
        (let pruned1 = pruned_vals @ [(x, domain_member)];
             \<sigma>1 = prune_value \<sigma> x domain_member
         in if cur_domain \<sigma>1 x = [] then (True, pruned1, \<sigma>1)
            else FCCheck_loop c x rest \<sigma>1 pruned1)
      else if cur_domain \<sigma> x = [] then (True, pruned_vals, \<sigma>)
      else FCCheck_loop c x rest \<sigma> pruned_vals)"

definition FCCheck :: "constraint \<Rightarrow> var \<Rightarrow> store \<Rightarrow> bool \<times> prunings \<times> store" where
  "FCCheck c x \<sigma> = FCCheck_loop c x (cur_domain \<sigma> x) \<sigma> []"

text \<open>
  The loop of \<^verbatim>\<open>prop_FC\<close> over the selected constraints. \<^verbatim>\<open>unassigned[0]\<close> is read
  only when \<^verbatim>\<open>get_n_unasgn() == 1\<close>, so the list is not empty there.
\<close>

fun prop_FC_loop :: "constraint list \<Rightarrow> store \<Rightarrow> prunings \<Rightarrow> bool \<times> prunings \<times> store" where
  "prop_FC_loop [] \<sigma> pruned_vals = (True, pruned_vals, \<sigma>)"
| "prop_FC_loop (con # rest) \<sigma> pruned_vals =
     (if get_n_unasgn \<sigma> con = 1 then
        (case FCCheck con (hd (get_unasgn_vars \<sigma> con)) \<sigma> of
           (dwo, pruned, \<sigma>') \<Rightarrow>
             if dwo then (False, pruned_vals @ pruned, \<sigma>')
             else prop_FC_loop rest \<sigma>' (pruned_vals @ pruned))
      else prop_FC_loop rest \<sigma> pruned_vals)"

text \<open>
  \<^verbatim>\<open>if not newVar\<close> is the test for \<^verbatim>\<open>None\<close>: a \<^verbatim>\<open>Variable\<close> object is truthy.
\<close>

definition selected_cons :: "csp \<Rightarrow> var option \<Rightarrow> constraint list" where
  "selected_cons p newVar =
     (case newVar of None \<Rightarrow> get_all_cons p | Some v \<Rightarrow> get_cons_with_var p v)"

definition prop_FC :: "csp \<Rightarrow> var option \<Rightarrow> store \<Rightarrow> bool \<times> prunings \<times> store" where
  "prop_FC p newVar \<sigma> = prop_FC_loop (selected_cons p newVar) \<sigma> []"

section \<open>Generalized arc consistency: \<^verbatim>\<open>prop_GAC\<close> and \<^verbatim>\<open>GAC\<close>\<close>

text \<open>
  The queue is a Python list. \<^verbatim>\<open>queue = [con] + queue\<close> puts a constraint at the
  front, \<^verbatim>\<open>queue.pop()\<close> removes and returns the last element.
\<close>

definition queue_push :: "constraint \<Rightarrow> constraint list \<Rightarrow> constraint list" where
  "queue_push con queue = [con] @ queue"

definition queue_pop :: "constraint list \<Rightarrow> constraint \<times> constraint list" where
  "queue_pop queue = (last queue, butlast queue)"

text \<open>
  The seeding loop of \<^verbatim>\<open>prop_GAC\<close>: \<^verbatim>\<open>for con in list: queue = [con] + queue\<close>.
\<close>

definition seed_queue :: "constraint list \<Rightarrow> constraint list" where
  "seed_queue list = foldl (\<lambda>queue con. queue_push con queue) [] list"

text \<open>
  The innermost loop of \<^verbatim>\<open>GAC\<close>:
  \<^verbatim>\<open>for constr in csp.get_cons_with_var(constraint): if constr not in queue: ...\<close>.
\<close>

fun enqueue_missing :: "constraint list \<Rightarrow> constraint list \<Rightarrow> constraint list" where
  "enqueue_missing [] queue = queue"
| "enqueue_missing (constr # rest) queue =
     enqueue_missing rest (if constr \<notin> set queue then queue_push constr queue else queue)"

text \<open>
  The body of the \<^verbatim>\<open>while\<close> loop either returns from \<^verbatim>\<open>GAC\<close> with a domain
  wipeout (\<^verbatim>\<open>return True, pruned_vals\<close>) or runs to its end.
\<close>

datatype gac_step =
  DWO prunings store
| Continue store "constraint list" prunings

text \<open>
  The loop \<^verbatim>\<open>for curr in constraint.cur_domain()\<close> for the popped constraint \<open>c\<close> and
  the scope variable \<open>x\<close> (which the source names \<^verbatim>\<open>constraint\<close>), over the snapshot
  of the current domain; the source's \<^verbatim>\<open>curr\<close> is \<open>currv\<close> here.
\<close>

fun GAC_values ::
  "csp \<Rightarrow> constraint \<Rightarrow> var \<Rightarrow> val list \<Rightarrow> store \<Rightarrow> constraint list \<Rightarrow> prunings \<Rightarrow>
   gac_step" where
  "GAC_values p c x [] \<sigma> queue pruned_vals = Continue \<sigma> queue pruned_vals"
| "GAC_values p c x (currv # rest) \<sigma> queue pruned_vals =
     (if \<not> has_support \<sigma> c x currv then
        (let pruned1 = pruned_vals @ [(x, currv)];
             \<sigma>1 = prune_value \<sigma> x currv
         in if cur_domain \<sigma>1 x \<noteq> [] then
              GAC_values p c x rest \<sigma>1 (enqueue_missing (get_cons_with_var p x) queue) pruned1
            else DWO pruned1 \<sigma>1)
      else GAC_values p c x rest \<sigma> queue pruned_vals)"

text \<open>The loop over the scope of the popped constraint.\<close>

fun GAC_scope ::
  "csp \<Rightarrow> constraint \<Rightarrow> var list \<Rightarrow> store \<Rightarrow> constraint list \<Rightarrow> prunings \<Rightarrow> gac_step" where
  "GAC_scope p c [] \<sigma> queue pruned_vals = Continue \<sigma> queue pruned_vals"
| "GAC_scope p c (x # rest) \<sigma> queue pruned_vals =
     (case GAC_values p c x (cur_domain \<sigma> x) \<sigma> queue pruned_vals of
        DWO pruned1 \<sigma>1 \<Rightarrow> DWO pruned1 \<sigma>1
      | Continue \<sigma>1 queue1 pruned1 \<Rightarrow> GAC_scope p c rest \<sigma>1 queue1 pruned1)"

text \<open>
  The \<^verbatim>\<open>while queue\<close> loop of \<^verbatim>\<open>GAC\<close>. Its termination is proved below, after the
  facts about the loop body that the proof needs.
\<close>

function GAC_loop ::
  "csp \<Rightarrow> constraint list \<Rightarrow> store \<Rightarrow> prunings \<Rightarrow> bool \<times> prunings \<times> store" where
  "GAC_loop p queue \<sigma> pruned_vals =
     (if queue = [] then (False, pruned_vals, \<sigma>)
      else
        (case queue_pop queue of
           (c, queue0) \<Rightarrow>
             (case GAC_scope p c (get_scope c) \<sigma> queue0 pruned_vals of
                DWO pruned1 \<sigma>1 \<Rightarrow> (True, pruned1, \<sigma>1)
              | Continue \<sigma>1 queue1 pruned1 \<Rightarrow> GAC_loop p queue1 \<sigma>1 pruned1)))"
  by pat_completeness auto

definition GAC :: "constraint list \<Rightarrow> csp \<Rightarrow> store \<Rightarrow> bool \<times> prunings \<times> store" where
  "GAC queue p \<sigma> = GAC_loop p queue \<sigma> []"

definition prop_GAC :: "csp \<Rightarrow> var option \<Rightarrow> store \<Rightarrow> bool \<times> prunings \<times> store" where
  "prop_GAC p newVar \<sigma> =
     (case GAC (seed_queue (selected_cons p newVar)) p \<sigma> of
        (dwo, pruned_vals, \<sigma>') \<Rightarrow>
          if dwo then (False, pruned_vals, \<sigma>') else (True, pruned_vals, \<sigma>'))"

section \<open>Replaying a list of prunings\<close>

text \<open>
  What the search driver can reconstruct from a returned list: the store obtained by
  pruning the listed pairs in order.
\<close>

definition apply_prunings :: "store \<Rightarrow> prunings \<Rightarrow> store" where
  "apply_prunings \<sigma> pruned = foldl (\<lambda>s (x, d). prune_value s x d) \<sigma> pruned"










text \<open>
  \<open>store_shrinks \<sigma> \<sigma>'\<close>: from \<open>\<sigma>\<close> to \<open>\<sigma>'\<close> no assignment has changed and every current
  domain has only lost values.
\<close>

definition store_shrinks :: "store \<Rightarrow> store \<Rightarrow> bool" where
  "store_shrinks \<sigma> \<sigma>' =
     (\<forall>v. assigned_value (\<sigma>' v) = assigned_value (\<sigma> v) \<and>
          (\<exists>P. cur_domain \<sigma>' v = filter P (cur_domain \<sigma> v)))"

text \<open>The variables of the scopes of a list of constraints, and the termination measure.\<close>

definition scope_vars :: "constraint list \<Rightarrow> var set" where
  "scope_vars cs = (\<Union>c \<in> set cs. set (scope c))"

definition domain_size :: "csp \<Rightarrow> constraint list \<Rightarrow> store \<Rightarrow> nat" where
  "domain_size p queue \<sigma> =
     (\<Sum>v \<in> scope_vars (queue @ constraints p). length (cur_domain \<sigma> v))"

text \<open>
  A constraint is arc consistent in a store when every value of the current domain of
  every variable of its scope has a support.
\<close>

definition gac_consistent :: "store \<Rightarrow> constraint \<Rightarrow> bool" where
  "gac_consistent \<sigma> c =
     (\<forall>x \<in> set (scope c). \<forall>d \<in> set (cur_domain \<sigma> x). has_support \<sigma> c x d)"

section \<open>Example instances\<close>

text \<open>
  The two by two grid with not-equal constraints on its rows and columns (variables
  \<open>0\<close>, \<open>1\<close> in the first row, \<open>2\<close>, \<open>3\<close> in the second), after the cell \<open>0\<close> has
  been assigned \<open>1\<close>; a CSP with two contradictory constraints on one pair of variables;
  a store in which every variable is assigned \<open>1\<close>; and a CSP with one not-equal
  constraint, which that store violates.
\<close>

definition ne_tuples :: "val list list" where
  "ne_tuples = [[1, 2], [2, 1]]"

definition grid_cons :: "constraint list" where
  "grid_cons =
     [\<lparr>cid = 0, scope = [0, 1], satisfying_tuples = ne_tuples\<rparr>,
      \<lparr>cid = 1, scope = [0, 2], satisfying_tuples = ne_tuples\<rparr>,
      \<lparr>cid = 2, scope = [2, 3], satisfying_tuples = ne_tuples\<rparr>,
      \<lparr>cid = 3, scope = [1, 3], satisfying_tuples = ne_tuples\<rparr>]"

definition grid_csp :: csp where
  "grid_csp = \<lparr>variables = [0, 1, 2, 3], constraints = grid_cons\<rparr>"

definition grid_store :: store where
  "grid_store =
     (\<lambda>v. if v = 0 then \<lparr>original_domain = [1, 2], current_domain = [1], assigned_value = Some 1\<rparr>
          else \<lparr>original_domain = [1, 2], current_domain = [1, 2], assigned_value = None\<rparr>)"


definition clash_store :: store where
  "clash_store =
     (\<lambda>v. \<lparr>original_domain = [1, 2], current_domain = [1], assigned_value = Some 1\<rparr>)"

definition clash_csp :: csp where
  "clash_csp =
     \<lparr>variables = [0, 1],
      constraints = [\<lparr>cid = 0, scope = [0, 1], satisfying_tuples = ne_tuples\<rparr>]\<rparr>"

section \<open>Forward-checking consistency\<close>

text \<open>
  A constraint is forward-checking consistent in a store when, if exactly one variable
  of its scope is unassigned, every value of the current domain of that variable passes
  the check of \<^verbatim>\<open>FCCheck\<close> with the assigned values of the other variables.
\<close>

definition fc_consistent :: "store \<Rightarrow> constraint \<Rightarrow> bool" where
  "fc_consistent \<sigma> c =
     (get_n_unasgn \<sigma> c = 1 \<longrightarrow>
        (\<forall>d \<in> set (cur_domain \<sigma> (hd (get_unasgn_vars \<sigma> c))).
           check c (valued_assigned \<sigma> c (hd (get_unasgn_vars \<sigma> c)) d)))"

text \<open>
  A pruning \<open>(x, v)\<close> is justified in a store by a list of constraints when one of them
  has \<open>x\<close> as its only unassigned variable and rejects the tuple that \<^verbatim>\<open>FCCheck\<close>
  builds for \<open>v\<close>.
\<close>

definition fc_justified :: "store \<Rightarrow> constraint list \<Rightarrow> var \<times> val \<Rightarrow> bool" where
  "fc_justified \<sigma> cs e =
     (\<exists>c \<in> set cs. get_n_unasgn \<sigma> c = 1 \<and> get_unasgn_vars \<sigma> c = [fst e] \<and>
        \<not> check c (valued_assigned \<sigma> c (fst e) (snd e)))"

section \<open>The edge deadlock test of the Sokoban heuristic\<close>

text \<open>
  \<^verbatim>\<open>edge_without_storage\<close> of \<^verbatim>\<open>A1/solution.py\<close> reads four attributes of a
  \<^verbatim>\<open>SokobanState\<close>, a class of the module \<^verbatim>\<open>sokoban\<close> that is not among the sources:
  the width and the height of the grid and the collections of box and storage positions.
  The record holds these four; the two collections are lists, in the order in which the
  source iterates over them.
\<close>

record sokoban_state =
  width :: int
  height :: int
  boxes :: "(int \<times> int) list"
  storage :: "(int \<times> int) list"

text \<open>
  The first two loops: copy \<^verbatim>\<open>state.storage\<close>, then remove every box position that is
  in the copy (\<^verbatim>\<open>list.remove\<close> removes the first occurrence).
\<close>

definition possible_storages :: "sokoban_state \<Rightarrow> (int \<times> int) list" where
  "possible_storages state =
     foldl (\<lambda>ps box. if box \<in> set ps then remove1 box ps else ps) (storage state) (boxes state)"

text \<open>
  The function as the source has it. The loop variable \<^verbatim>\<open>box\<close> of the second loop
  shadows the parameter only after \<open>(x, y)\<close> has been read from it.
\<close>

definition edge_without_storage :: "int \<times> int \<Rightarrow> sokoban_state \<Rightarrow> bool" where
  "edge_without_storage box state =
     (case box of (x, y) \<Rightarrow>
        (let x_list = map fst (possible_storages state);
             y_list = map snd (possible_storages state)
         in if x = 0 \<and> 0 \<notin> set x_list then True
            else if x = width state - 1 \<and> width state - 1 \<notin> set x_list then True
            else if y = 0 \<and> 0 \<notin> set y_list then True
            else if y = height state - 1 \<and> width state - 1 \<notin> set y_list then True
            else False))"

text \<open>
  The rule that treats the four boundaries alike, as the specification words the intended
  behaviour: the bottom boundary is tested against \<open>height - 1\<close>.
\<close>

definition edge_without_storage_symmetric :: "int \<times> int \<Rightarrow> sokoban_state \<Rightarrow> bool" where
  "edge_without_storage_symmetric box state =
     (case box of (x, y) \<Rightarrow>
        (let x_list = map fst (possible_storages state);
             y_list = map snd (possible_storages state)
         in if x = 0 \<and> 0 \<notin> set x_list then True
            else if x = width state - 1 \<and> width state - 1 \<notin> set x_list then True
            else if y = 0 \<and> 0 \<notin> set y_list then True
            else if y = height state - 1 \<and> height state - 1 \<notin> set y_list then True
            else False))"

text \<open>A grid three wide and two high with one box on the bottom row.\<close>

definition wide_state :: sokoban_state where
  "wide_state = \<lparr>width = 3, height = 2, boxes = [(1, 1)], storage = [(0, 1)]\<rparr>"

section \<open>The model compilers of \<^verbatim>\<open>A2/csp/puzzle_csp.py\<close>\<close>

subsection \<open>Python values\<close>

text \<open>
  The exceptions that the compilers can raise on a board that is a list of lists of
  integers: an index out of range, \<^verbatim>\<open>int()\<close> of a character that is no digit, and a
  division by zero.
\<close>

datatype py_error = IndexError | ValueError | ZeroDivisionError

definition py_bind :: "py_error + 'a \<Rightarrow> ('a \<Rightarrow> py_error + 'b) \<Rightarrow> py_error + 'b" where
  "py_bind m f = (case m of Inl e \<Rightarrow> Inl e | Inr x \<Rightarrow> f x)"

text \<open>
  \<^verbatim>\<open>xs[i]\<close> and \<^verbatim>\<open>xs[i] = x\<close>: a negative index counts from the end, an index out of
  range raises.
\<close>

definition py_position :: "nat \<Rightarrow> int \<Rightarrow> nat option" where
  "py_position len i =
     (if 0 \<le> i \<and> i < int len then Some (nat i)
      else if - int len \<le> i \<and> i < 0 then Some (nat (int len + i))
      else None)"

definition py_index :: "'a list \<Rightarrow> int \<Rightarrow> py_error + 'a" where
  "py_index xs i =
     (case py_position (length xs) i of None \<Rightarrow> Inl IndexError | Some k \<Rightarrow> Inr (xs ! k))"

definition py_assign :: "'a list \<Rightarrow> int \<Rightarrow> 'a \<Rightarrow> py_error + 'a list" where
  "py_assign xs i x =
     (case py_position (length xs) i of None \<Rightarrow> Inl IndexError | Some k \<Rightarrow> Inr (xs[k := x]))"

text \<open>\<^verbatim>\<open>str(i)\<close> for an integer: its decimal digits, after a minus sign when negative.\<close>

function digits_of :: "nat \<Rightarrow> string" where
  "digits_of n =
     (if n < 10 then [char_of (48 + n)] else digits_of (n div 10) @ [char_of (48 + n mod 10)])"
  by pat_completeness auto
termination
  by (relation "measure id") auto

definition str_int :: "int \<Rightarrow> string" where
  "str_int i = (if i < 0 then CHR ''-'' # digits_of (nat (- i)) else digits_of (nat i))"

text \<open>\<^verbatim>\<open>int(ch)\<close> for one character of such a string: its digit, or \<^verbatim>\<open>ValueError\<close>.\<close>

definition int_of_char :: "char \<Rightarrow> py_error + int" where
  "int_of_char ch =
     (if 48 \<le> (of_char ch :: nat) \<and> (of_char ch :: nat) \<le> 57
      then Inr (int (of_char ch) - 48) else Inl ValueError)"

text \<open>\<^verbatim>\<open>int(str(cell)[k]) - 1\<close>: the row (\<open>k = 0\<close>) or column (\<open>k = 1\<close>) of a cell.\<close>

definition cell_index :: "int \<Rightarrow> int \<Rightarrow> py_error + int" where
  "cell_index cell k =
     py_bind (py_index (str_int cell) k) (\<lambda>ch. py_bind (int_of_char ch) (\<lambda>d. Inr (d - 1)))"

subsection \<open>Creating objects\<close>

text \<open>
  Every call of \<^verbatim>\<open>Variable(...)\<close> or \<^verbatim>\<open>Constraint(...)\<close> creates an object with a new
  identity. The heap counts the objects created so far and keeps, for each variable, its
  name and its state, and for each constraint its name.

  Modelled from the spec: the constructors of the classes \<^verbatim>\<open>Variable\<close>,
  \<^verbatim>\<open>Constraint\<close> and \<^verbatim>\<open>CSP\<close> and \<^verbatim>\<open>CSP.add_constraint\<close> of the module
  \<^verbatim>\<open>cspbase\<close> (missing from the sources). A new variable has the given domain as its
  original and current domain and no assigned value; a new constraint has the given scope
  and, after \<^verbatim>\<open>add_satisfying_tuples\<close>, the given tuples; a CSP owns its variable list and
  the constraints added to it, in order.
\<close>

record heap =
  var_count :: nat
  con_count :: nat
  var_names :: "var \<Rightarrow> string"
  con_names :: "nat \<Rightarrow> string"
  var_states :: store

definition empty_heap :: heap where
  "empty_heap =
     \<lparr>var_count = 0, con_count = 0, var_names = (\<lambda>_. []), con_names = (\<lambda>_. []),
      var_states = (\<lambda>_. \<lparr>original_domain = [], current_domain = [], assigned_value = None\<rparr>)\<rparr>"

definition new_Variable :: "string \<Rightarrow> val list \<Rightarrow> heap \<Rightarrow> var \<times> heap" where
  "new_Variable name domain h =
     (var_count h,
      h\<lparr>var_count := Suc (var_count h),
        var_names := (var_names h)(var_count h := name),
        var_states := (var_states h)(var_count h :=
          \<lparr>original_domain = domain, current_domain = domain, assigned_value = None\<rparr>)\<rparr>)"

definition new_Constraint ::
  "string \<Rightarrow> var list \<Rightarrow> val list list \<Rightarrow> heap \<Rightarrow> constraint \<times> heap" where
  "new_Constraint name sc tuples h =
     (\<lparr>cid = con_count h, scope = sc, satisfying_tuples = tuples\<rparr>,
      h\<lparr>con_count := Suc (con_count h), con_names := (con_names h)(con_count h := name)\<rparr>)"

definition add_constraint :: "csp \<Rightarrow> constraint \<Rightarrow> csp" where
  "add_constraint p c = p\<lparr>constraints := constraints p @ [c]\<rparr>"

subsection \<open>\<^verbatim>\<open>binary_ne_grid\<close>\<close>

text \<open>
  The two nested loops that create one variable per cell, named \<^verbatim>\<open>V{row+1}{col+1}\<close>,
  with the domain \<open>1, \<dots>, size\<close>. The source collects the variables row by row in
  \<^verbatim>\<open>variables\<close> (here \<open>var_array\<close>) and in the same order in the flat \<^verbatim>\<open>var_list\<close>.
  The source's \<^verbatim>\<open>size\<close> is \<open>grid_size\<close> here.
\<close>

fun new_row :: "int \<Rightarrow> int \<Rightarrow> int list \<Rightarrow> heap \<Rightarrow> var list \<times> heap" where
  "new_row grid_size row [] h = ([], h)"
| "new_row grid_size row (col # cols) h =
     (case new_Variable (''V'' @ str_int (row + 1) @ str_int (col + 1)) [1..grid_size] h of
        (newVar, h1) \<Rightarrow>
          (case new_row grid_size row cols h1 of (temp, h2) \<Rightarrow> (newVar # temp, h2)))"

fun new_rows :: "int \<Rightarrow> int list \<Rightarrow> heap \<Rightarrow> var list list \<times> heap" where
  "new_rows grid_size [] h = ([], h)"
| "new_rows grid_size (row # rows) h =
     (case new_row grid_size row [0..grid_size - 1] h of
        (temp, h1) \<Rightarrow>
          (case new_rows grid_size rows h1 of (var_array, h2) \<Rightarrow> (temp # var_array, h2)))"

text \<open>The pairs of \<^verbatim>\<open>itertools.product\<close> of the domain with itself whose entries differ.\<close>

definition ne_sat_tuples :: "int \<Rightarrow> val list list" where
  "ne_sat_tuples grid_size =
     filter (\<lambda>t. \<not> t ! 0 = t ! 1) (product_lists [[1..grid_size], [1..grid_size]])"

text \<open>
  The index triples of the three nested loops
  \<^verbatim>\<open>for i in range(size): for j in range(size): for k in range(j + 1, size)\<close>, and the
  row and the column constraint created for each. All three indices are below the size,
  so every read of \<^verbatim>\<open>variables[..][..]\<close> is in range.
\<close>

definition grid_triples :: "nat \<Rightarrow> (nat \<times> nat \<times> nat) list" where
  "grid_triples n =
     concat (map (\<lambda>i. concat (map (\<lambda>j. map (\<lambda>k. (i, j, k)) [j + 1..<n]) [0..<n])) [0..<n])"

fun new_grid_cons ::
  "var list list \<Rightarrow> val list list \<Rightarrow> (nat \<times> nat \<times> nat) list \<Rightarrow> heap \<Rightarrow>
   constraint list \<times> heap" where
  "new_grid_cons var_array sat_tuples [] h = ([], h)"
| "new_grid_cons var_array sat_tuples ((i, j, k) # rest) h =
     (case new_Constraint
             (''Row '' @ str_int (int i) @ '' '' @ str_int (int j) @ str_int (int k))
             [var_array ! i ! j, var_array ! i ! k] sat_tuples h of
        (row_con, h1) \<Rightarrow>
          (case new_Constraint
                  (''Column '' @ str_int (int i) @ '' '' @ str_int (int j) @ str_int (int k))
                  [var_array ! j ! i, var_array ! k ! i] sat_tuples h1 of
             (col_con, h2) \<Rightarrow>
               (case new_grid_cons var_array sat_tuples rest h2 of
                  (cons, h3) \<Rightarrow> (row_con # col_con # cons, h3))))"

text \<open>
  \<^verbatim>\<open>binary_ne_grid\<close>: the size is \<^verbatim>\<open>fpuzz_grid[0][0]\<close>; the CSP is created with the flat
  variable list and receives the constraints in order; the result is the CSP and the
  array of the variables.
\<close>

definition binary_ne_grid ::
  "int list list \<Rightarrow> heap \<Rightarrow> py_error + (csp \<times> var list list \<times> heap)" where
  "binary_ne_grid fpuzz_grid h =
     py_bind (py_index fpuzz_grid 0) (\<lambda>first.
     py_bind (py_index first 0) (\<lambda>grid_size.
       (case new_rows grid_size [0..grid_size - 1] h of
          (var_array, h1) \<Rightarrow>
            (case new_grid_cons var_array (ne_sat_tuples grid_size)
                    (grid_triples (nat grid_size)) h1 of
               (cons, h2) \<Rightarrow>
                 Inr (foldl add_constraint \<lparr>variables = concat var_array, constraints = []\<rparr> cons,
                      var_array, h2)))))"

subsection \<open>\<^verbatim>\<open>caged_csp_model\<close>\<close>

text \<open>
  \<^verbatim>\<open>itertools.permutations\<close> of a tuple: every ordering of its positions, in the
  order of the positions.
\<close>

fun selections :: "'a list \<Rightarrow> ('a \<times> 'a list) list" where
  "selections [] = []"
| "selections (x # xs) = (x, xs) # map (\<lambda>(y, ys). (y, x # ys)) (selections xs)"

fun permutations_n :: "nat \<Rightarrow> 'a list \<Rightarrow> 'a list list" where
  "permutations_n 0 xs = [[]]"
| "permutations_n (Suc n) xs =
     concat (map (\<lambda>(y, ys). map ((#) y) (permutations_n n ys)) (selections xs))"

definition py_permutations :: "'a list \<Rightarrow> 'a list list" where
  "py_permutations xs = permutations_n (length xs) xs"

text \<open>
  The division cage: \<^verbatim>\<open>quotient = quotient / num[n]\<close> for the entries after the first,
  raising on a zero divisor, and the count of the permutations whose quotient equals the
  target. Python divides in floating point; the model divides exactly, in the rational
  numbers.
\<close>

fun divide_all :: "rat \<Rightarrow> int list \<Rightarrow> py_error + rat" where
  "divide_all quot [] = Inr quot"
| "divide_all quot (n # ns) =
     (if n = 0 then Inl ZeroDivisionError else divide_all (quot / of_int n) ns)"

fun division_hits :: "int \<Rightarrow> int list list \<Rightarrow> py_error + nat" where
  "division_hits target [] = Inr 0"
| "division_hits target (num # nums) =
     py_bind (divide_all (of_int (hd num)) (tl num)) (\<lambda>quot.
     py_bind (division_hits target nums) (\<lambda>n.
       Inr (if quot = of_int target then Suc n else n)))"

text \<open>
  What one tuple \<^verbatim>\<open>dom\<close> of the product of the domains adds to \<^verbatim>\<open>cage_tuple\<close>:
  itself once when its sum (operation 0) or product (operation 3) is the target, itself
  once for every permutation whose difference (operation 1) or quotient (operation 2) is
  the target, and nothing for any other operation.
\<close>

definition cage_tuples_for :: "int \<Rightarrow> int \<Rightarrow> int list \<Rightarrow> py_error + val list list" where
  "cage_tuples_for operation target dom_tuple =
     (if operation = 0 then Inr (if sum_list dom_tuple = target then [dom_tuple] else [])
      else if operation = 1 then
        Inr (map (\<lambda>num. dom_tuple)
               (filter (\<lambda>num. foldl (-) (hd num) (tl num) = target) (py_permutations dom_tuple)))
      else if operation = 2 then
        py_bind (division_hits target (py_permutations dom_tuple))
          (\<lambda>n. Inr (replicate n dom_tuple))
      else if operation = 3 then Inr (if prod_list dom_tuple = target then [dom_tuple] else [])
      else Inr [])"

fun cage_tuples :: "int \<Rightarrow> int \<Rightarrow> int list list \<Rightarrow> py_error + val list list" where
  "cage_tuples operation target [] = Inr []"
| "cage_tuples operation target (dom_tuple # rest_tuples) =
     py_bind (cage_tuples_for operation target dom_tuple) (\<lambda>ts.
     py_bind (cage_tuples operation target rest_tuples) (\<lambda>rest. Inr (ts @ rest)))"

text \<open>
  The loop over the cells of a cage with an operation: the variable that
  \<^verbatim>\<open>variables[row][col]\<close> holds at that moment, and its original domain.
\<close>

fun cage_cells ::
  "var list list \<Rightarrow> heap \<Rightarrow> int list \<Rightarrow> py_error + (var list \<times> val list list)" where
  "cage_cells var_array h [] = Inr ([], [])"
| "cage_cells var_array h (cell # cells) =
     py_bind (cell_index cell 0) (\<lambda>row.
     py_bind (cell_index cell 1) (\<lambda>col.
     py_bind (py_index var_array row) (\<lambda>r.
     py_bind (py_index r col) (\<lambda>v.
     py_bind (cage_cells var_array h cells) (\<lambda>(cage_vars, domain).
       Inr (v # cage_vars, original_domain (var_states h v) # domain))))))"

text \<open>
  The body of the loop over the cages, for the cage \<^verbatim>\<open>fpuzz_grid[i]\<close>. A cage of two
  entries is a cell and its value: the source creates a new \<^verbatim>\<open>Variable\<close> with the
  cell's name and the domain \<^verbatim>\<open>[target]\<close> and stores it in \<^verbatim>\<open>variables[row][col]\<close>.
  Any other cage ends with its target and its operation and yields a constraint over the
  variables of its cells.
\<close>

definition one_cage ::
  "nat \<Rightarrow> int list \<Rightarrow> var list list \<times> constraint list \<times> heap \<Rightarrow>
   py_error + (var list list \<times> constraint list \<times> heap)" where
  "one_cage i cage s =
     (case s of (var_array, cons, h) \<Rightarrow>
        if length cage = 2 then
          py_bind (cell_index (cage ! 0) 0) (\<lambda>row.
          py_bind (cell_index (cage ! 0) 1) (\<lambda>col.
            (case new_Variable (''V'' @ str_int (row + 1) @ str_int (col + 1)) [cage ! 1] h of
               (newVar, h1) \<Rightarrow>
                 py_bind (py_index var_array row) (\<lambda>r.
                 py_bind (py_assign r col newVar) (\<lambda>r'.
                 py_bind (py_assign var_array row r') (\<lambda>var_array'.
                   Inr (var_array', cons, h1)))))))
        else
          py_bind (py_index cage (- 1)) (\<lambda>operation.
          py_bind (py_index cage (- 2)) (\<lambda>target.
          py_bind (cage_cells var_array h (take (length cage - 2) cage)) (\<lambda>(cage_vars, domain).
          py_bind (cage_tuples operation target (product_lists domain)) (\<lambda>cage_tuple.
            (case new_Constraint (''Cage '' @ str_int (int i)) cage_vars cage_tuple h of
               (con, h1) \<Rightarrow> Inr (var_array, cons @ [con], h1)))))))"

fun all_cages ::
  "nat \<Rightarrow> int list list \<Rightarrow> var list list \<times> constraint list \<times> heap \<Rightarrow>
   py_error + (var list list \<times> constraint list \<times> heap)" where
  "all_cages i [] s = Inr s"
| "all_cages i (cage # cages) s = py_bind (one_cage i cage s) (all_cages (Suc i) cages)"

text \<open>
  \<^verbatim>\<open>caged_csp_model\<close>: the grid model, then the cages \<^verbatim>\<open>fpuzz_grid[1:]\<close>, then the
  cage constraints added to the CSP of the grid model.
\<close>

definition caged_csp_model ::
  "int list list \<Rightarrow> heap \<Rightarrow> py_error + (csp \<times> var list list \<times> heap)" where
  "caged_csp_model fpuzz_grid h =
     py_bind (binary_ne_grid fpuzz_grid h) (\<lambda>(p, var_array, h1).
     py_bind (all_cages 1 (tl fpuzz_grid) (var_array, [], h1)) (\<lambda>(var_array', cons, h2).
       Inr (foldl add_constraint p cons, var_array', h2)))"

text \<open>
  A two by two board: the cells \<open>11\<close> and \<open>12\<close> are given (\<open>2\<close> and \<open>1\<close>), the cells
  \<open>21\<close> and \<open>22\<close> form an addition cage with the target \<open>3\<close>.
\<close>

definition given_cells_board :: "int list list" where
  "given_cells_board = [[2], [11, 2], [12, 1], [21, 22, 3, 0]]"

section \<open>Facts about stores and replayed prunings\<close>

lemma cur_domain_prune:
  "cur_domain (prune_value \<sigma> x d) v =
     (if v = x then removeAll d (cur_domain \<sigma> x) else cur_domain \<sigma> v)"
  by (simp add: cur_domain_def prune_value_def)

lemma assigned_prune: "assigned_value (prune_value \<sigma> x d v) = assigned_value (\<sigma> v)"
  by (simp add: prune_value_def)

lemma prune_value_other: "u \<noteq> x \<Longrightarrow> prune_value \<sigma> x d u = \<sigma> u"
  by (simp add: prune_value_def)

lemma apply_prunings_Nil: "apply_prunings \<sigma> [] = \<sigma>"
  by (simp add: apply_prunings_def)

lemma apply_prunings_Cons:
  "apply_prunings \<sigma> ((x, d) # pr) = apply_prunings (prune_value \<sigma> x d) pr"
  by (simp add: apply_prunings_def)



lemma cur_domain_apply_prunings:
  "cur_domain (apply_prunings \<sigma> pr) v = filter (\<lambda>d. (v, d) \<notin> set pr) (cur_domain \<sigma> v)"
proof (induction pr arbitrary: \<sigma>)
  case Nil
  show ?case by (simp add: apply_prunings_Nil)
next
  case (Cons a pr)
  obtain x d where a: "a = (x, d)" by (cases a)
  show ?case
    unfolding a apply_prunings_Cons Cons.IH cur_domain_prune
    by (auto simp: removeAll_filter_not_eq intro: filter_cong)
qed

lemma assigned_apply_prunings:
  "assigned_value (apply_prunings \<sigma> pr v) = assigned_value (\<sigma> v)"
  by (induction pr arbitrary: \<sigma>) (auto simp: apply_prunings_Nil apply_prunings_Cons assigned_prune)



subsection \<open>Shrinking stores\<close>

lemma store_shrinks_refl: "store_shrinks \<sigma> \<sigma>"
  unfolding store_shrinks_def
proof (intro allI conjI)
  fix v
  show "\<exists>P. cur_domain \<sigma> v = filter P (cur_domain \<sigma> v)"
    by (rule exI [of _ "\<lambda>_. True"]) simp
qed simp

lemma store_shrinks_trans:
  assumes "store_shrinks \<sigma> \<sigma>1" and "store_shrinks \<sigma>1 \<sigma>2"
  shows "store_shrinks \<sigma> \<sigma>2"
  unfolding store_shrinks_def
proof (intro allI conjI)
  fix v
  from assms show "assigned_value (\<sigma>2 v) = assigned_value (\<sigma> v)"
    by (simp add: store_shrinks_def)
  from assms(1) obtain P where p: "cur_domain \<sigma>1 v = filter P (cur_domain \<sigma> v)"
    unfolding store_shrinks_def by blast
  from assms(2) obtain Q where q: "cur_domain \<sigma>2 v = filter Q (cur_domain \<sigma>1 v)"
    unfolding store_shrinks_def by blast
  show "\<exists>R. cur_domain \<sigma>2 v = filter R (cur_domain \<sigma> v)"
    by (rule exI [of _ "\<lambda>d. P d \<and> Q d"]) (simp add: p q)
qed

lemma store_shrinks_prune: "store_shrinks \<sigma> (prune_value \<sigma> x d)"
  unfolding store_shrinks_def
proof (intro allI conjI)
  fix v
  show "assigned_value (prune_value \<sigma> x d v) = assigned_value (\<sigma> v)"
    by (rule assigned_prune)
  show "\<exists>P. cur_domain (prune_value \<sigma> x d) v = filter P (cur_domain \<sigma> v)"
    by (rule exI [of _ "\<lambda>e. v = x \<longrightarrow> e \<noteq> d"])
       (auto simp: cur_domain_prune removeAll_filter_not_eq intro: filter_cong)
qed

lemma store_shrinks_apply_prunings: "store_shrinks \<sigma> (apply_prunings \<sigma> pr)"
  unfolding store_shrinks_def
proof (intro allI conjI)
  fix v
  show "assigned_value (apply_prunings \<sigma> pr v) = assigned_value (\<sigma> v)"
    by (rule assigned_apply_prunings)
  show "\<exists>P. cur_domain (apply_prunings \<sigma> pr) v = filter P (cur_domain \<sigma> v)"
    by (rule exI) (rule cur_domain_apply_prunings)
qed

lemma store_shrinks_assigned:
  "store_shrinks \<sigma> \<sigma>' \<Longrightarrow> assigned_value (\<sigma>' v) = assigned_value (\<sigma> v)"
  by (simp add: store_shrinks_def)

lemma store_shrinks_set:
  "store_shrinks \<sigma> \<sigma>' \<Longrightarrow> set (cur_domain \<sigma>' v) \<subseteq> set (cur_domain \<sigma> v)"
  unfolding store_shrinks_def by (metis filter_is_subset)

lemma store_shrinks_length:
  "store_shrinks \<sigma> \<sigma>' \<Longrightarrow> length (cur_domain \<sigma>' v) \<le> length (cur_domain \<sigma> v)"
  unfolding store_shrinks_def by (metis length_filter_le)

lemma store_shrinks_less:
  assumes "store_shrinks \<sigma> \<sigma>'" and "d \<in> set (cur_domain \<sigma> v)"
    and "d \<notin> set (cur_domain \<sigma>' v)"
  shows "length (cur_domain \<sigma>' v) < length (cur_domain \<sigma> v)"
proof -
  from assms(1) obtain P where p: "cur_domain \<sigma>' v = filter P (cur_domain \<sigma> v)"
    unfolding store_shrinks_def by blast
  with assms(2,3) have "\<not> P d" by auto
  with assms(2) show ?thesis unfolding p by (rule length_filter_less)
qed

subsection \<open>Runs without and with a wipeout\<close>













subsection \<open>What one pass over a popped constraint changes\<close>

lemma set_enqueue_missing: "set (enqueue_missing cs q) = set q \<union> set cs"
  by (induction cs arbitrary: q) (auto simp: queue_push_def)

lemma get_cons_with_var_subset: "set (get_cons_with_var p x) \<subseteq> set (constraints p)"
  by (auto simp: get_cons_with_var_def)

lemma GAC_values_Cons_Continue:
  assumes "GAC_values p c x (d # ds) \<sigma> q pr = Continue \<sigma>' q' pr'"
  shows "(has_support \<sigma> c x d \<and> GAC_values p c x ds \<sigma> q pr = Continue \<sigma>' q' pr') \<or>
         (\<not> has_support \<sigma> c x d \<and> cur_domain (prune_value \<sigma> x d) x \<noteq> [] \<and>
            GAC_values p c x ds (prune_value \<sigma> x d)
              (enqueue_missing (get_cons_with_var p x) q) (pr @ [(x, d)]) = Continue \<sigma>' q' pr')"
  using assms by (auto simp: Let_def split: if_splits)

lemma GAC_values_shrink:
  "GAC_values p c x ds \<sigma> q pr = Continue \<sigma>' q' pr' \<Longrightarrow> store_shrinks \<sigma> \<sigma>'"
proof (induction ds arbitrary: \<sigma> q pr)
  case Nil
  then show ?case by (simp add: store_shrinks_refl)
next
  case (Cons d ds)
  from GAC_values_Cons_Continue [OF Cons.prems] show ?case
  proof (elim disjE conjE)
    assume "GAC_values p c x ds \<sigma> q pr = Continue \<sigma>' q' pr'"
    then show ?thesis by (rule Cons.IH)
  next
    assume "GAC_values p c x ds (prune_value \<sigma> x d)
              (enqueue_missing (get_cons_with_var p x) q) (pr @ [(x, d)]) = Continue \<sigma>' q' pr'"
    then have "store_shrinks (prune_value \<sigma> x d) \<sigma>'" by (rule Cons.IH)
    with store_shrinks_prune show ?thesis by (rule store_shrinks_trans)
  qed
qed

lemma GAC_values_queue:
  "GAC_values p c x ds \<sigma> q pr = Continue \<sigma>' q' pr' \<Longrightarrow>
   set q \<subseteq> set q' \<and> set q' \<subseteq> set q \<union> set (constraints p)"
proof (induction ds arbitrary: \<sigma> q pr)
  case Nil
  then show ?case by simp
next
  case (Cons d ds)
  from GAC_values_Cons_Continue [OF Cons.prems] show ?case
  proof (elim disjE conjE)
    assume "GAC_values p c x ds \<sigma> q pr = Continue \<sigma>' q' pr'"
    then show ?thesis by (rule Cons.IH)
  next
    assume "GAC_values p c x ds (prune_value \<sigma> x d)
              (enqueue_missing (get_cons_with_var p x) q) (pr @ [(x, d)]) = Continue \<sigma>' q' pr'"
    from Cons.IH [OF this] get_cons_with_var_subset [of p x]
    show ?thesis by (auto simp: set_enqueue_missing)
  qed
qed

lemma GAC_values_changed:
  "GAC_values p c x ds \<sigma> q pr = Continue \<sigma>' q' pr' \<Longrightarrow> \<sigma>' u \<noteq> \<sigma> u \<Longrightarrow>
   u = x \<and> set (get_cons_with_var p x) \<subseteq> set q'"
proof (induction ds arbitrary: \<sigma> q pr)
  case Nil
  then show ?case by simp
next
  case (Cons d ds)
  from GAC_values_Cons_Continue [OF Cons.prems(1)] show ?case
  proof (elim disjE conjE)
    assume "GAC_values p c x ds \<sigma> q pr = Continue \<sigma>' q' pr'"
    then show ?thesis using Cons.prems(2) by (rule Cons.IH)
  next
    assume r: "GAC_values p c x ds (prune_value \<sigma> x d)
              (enqueue_missing (get_cons_with_var p x) q) (pr @ [(x, d)]) = Continue \<sigma>' q' pr'"
    from GAC_values_queue [OF r]
    have sub: "set (get_cons_with_var p x) \<subseteq> set q'" by (auto simp: set_enqueue_missing)
    show ?thesis
    proof (cases "\<sigma>' u = prune_value \<sigma> x d u")
      case True
      with Cons.prems(2) have "u = x" using prune_value_other [of u x \<sigma> d] by metis
      with sub show ?thesis by simp
    next
      case False
      with r show ?thesis by (rule Cons.IH)
    qed
  qed
qed

lemma GAC_values_progress:
  "GAC_values p c x ds \<sigma> q pr = Continue \<sigma>' q' pr' \<Longrightarrow>
   (\<sigma>' = \<sigma> \<and> q' = q \<and> pr' = pr \<and> (\<forall>d \<in> set ds. has_support \<sigma> c x d)) \<or>
   (\<exists>d \<in> set ds. d \<notin> set (cur_domain \<sigma>' x))"
proof (induction ds arbitrary: \<sigma> q pr)
  case Nil
  then show ?case by simp
next
  case (Cons d ds)
  from GAC_values_Cons_Continue [OF Cons.prems] show ?case
  proof (elim disjE conjE)
    assume "has_support \<sigma> c x d" and "GAC_values p c x ds \<sigma> q pr = Continue \<sigma>' q' pr'"
    with Cons.IH [of \<sigma> q pr] show ?thesis by auto
  next
    assume r: "GAC_values p c x ds (prune_value \<sigma> x d)
              (enqueue_missing (get_cons_with_var p x) q) (pr @ [(x, d)]) = Continue \<sigma>' q' pr'"
    have "d \<notin> set (cur_domain (prune_value \<sigma> x d) x)" by (simp add: cur_domain_prune)
    with store_shrinks_set [OF GAC_values_shrink [OF r], of x]
    have "d \<notin> set (cur_domain \<sigma>' x)" by auto
    then show ?thesis by auto
  qed
qed

lemma GAC_scope_Cons_Continue:
  assumes "GAC_scope p c (x # xs) \<sigma> q pr = Continue \<sigma>' q' pr'"
  obtains \<sigma>1 q1 pr1 where
    "GAC_values p c x (cur_domain \<sigma> x) \<sigma> q pr = Continue \<sigma>1 q1 pr1"
    "GAC_scope p c xs \<sigma>1 q1 pr1 = Continue \<sigma>' q' pr'"
  using assms by (auto split: gac_step.splits)

lemma GAC_scope_shrink:
  "GAC_scope p c xs \<sigma> q pr = Continue \<sigma>' q' pr' \<Longrightarrow> store_shrinks \<sigma> \<sigma>'"
proof (induction xs arbitrary: \<sigma> q pr)
  case Nil
  then show ?case by (simp add: store_shrinks_refl)
next
  case (Cons x xs)
  from Cons.prems obtain \<sigma>1 q1 pr1 where
    v: "GAC_values p c x (cur_domain \<sigma> x) \<sigma> q pr = Continue \<sigma>1 q1 pr1" and
    s: "GAC_scope p c xs \<sigma>1 q1 pr1 = Continue \<sigma>' q' pr'"
    by (rule GAC_scope_Cons_Continue)
  from GAC_values_shrink [OF v] Cons.IH [OF s] show ?case by (rule store_shrinks_trans)
qed

lemma GAC_scope_queue:
  "GAC_scope p c xs \<sigma> q pr = Continue \<sigma>' q' pr' \<Longrightarrow>
   set q \<subseteq> set q' \<and> set q' \<subseteq> set q \<union> set (constraints p)"
proof (induction xs arbitrary: \<sigma> q pr)
  case Nil
  then show ?case by simp
next
  case (Cons x xs)
  from Cons.prems obtain \<sigma>1 q1 pr1 where
    v: "GAC_values p c x (cur_domain \<sigma> x) \<sigma> q pr = Continue \<sigma>1 q1 pr1" and
    s: "GAC_scope p c xs \<sigma>1 q1 pr1 = Continue \<sigma>' q' pr'"
    by (rule GAC_scope_Cons_Continue)
  from GAC_values_queue [OF v] Cons.IH [OF s] show ?case by blast
qed

lemma GAC_scope_changed:
  "GAC_scope p c xs \<sigma> q pr = Continue \<sigma>' q' pr' \<Longrightarrow> \<sigma>' u \<noteq> \<sigma> u \<Longrightarrow>
   u \<in> set xs \<and> set (get_cons_with_var p u) \<subseteq> set q'"
proof (induction xs arbitrary: \<sigma> q pr)
  case Nil
  then show ?case by simp
next
  case (Cons x xs)
  from Cons.prems(1) obtain \<sigma>1 q1 pr1 where
    v: "GAC_values p c x (cur_domain \<sigma> x) \<sigma> q pr = Continue \<sigma>1 q1 pr1" and
    s: "GAC_scope p c xs \<sigma>1 q1 pr1 = Continue \<sigma>' q' pr'"
    by (rule GAC_scope_Cons_Continue)
  show ?case
  proof (cases "\<sigma>' u = \<sigma>1 u")
    case True
    with Cons.prems(2) have "\<sigma>1 u \<noteq> \<sigma> u" by simp
    from GAC_values_changed [OF v this] GAC_scope_queue [OF s]
    show ?thesis by auto
  next
    case False
    from Cons.IH [OF s False] show ?thesis by simp
  qed
qed

lemma GAC_scope_progress:
  "GAC_scope p c xs \<sigma> q pr = Continue \<sigma>' q' pr' \<Longrightarrow>
   (\<sigma>' = \<sigma> \<and> q' = q \<and> pr' = pr \<and>
      (\<forall>x \<in> set xs. \<forall>d \<in> set (cur_domain \<sigma> x). has_support \<sigma> c x d)) \<or>
   (\<exists>x \<in> set xs. \<exists>d \<in> set (cur_domain \<sigma> x). d \<notin> set (cur_domain \<sigma>' x))"
proof (induction xs arbitrary: \<sigma> q pr)
  case Nil
  then show ?case by simp
next
  case (Cons x xs)
  from Cons.prems obtain \<sigma>1 q1 pr1 where
    v: "GAC_values p c x (cur_domain \<sigma> x) \<sigma> q pr = Continue \<sigma>1 q1 pr1" and
    s: "GAC_scope p c xs \<sigma>1 q1 pr1 = Continue \<sigma>' q' pr'"
    by (rule GAC_scope_Cons_Continue)
  from GAC_values_progress [OF v] show ?case
  proof (elim disjE conjE)
    assume same: "\<sigma>1 = \<sigma>" "q1 = q" "pr1 = pr"
      and sup: "\<forall>d \<in> set (cur_domain \<sigma> x). has_support \<sigma> c x d"
    from Cons.IH [OF s] same sup show ?thesis by auto
  next
    assume "\<exists>d \<in> set (cur_domain \<sigma> x). d \<notin> set (cur_domain \<sigma>1 x)"
    then obtain d where d: "d \<in> set (cur_domain \<sigma> x)" "d \<notin> set (cur_domain \<sigma>1 x)" by blast
    from store_shrinks_set [OF GAC_scope_shrink [OF s], of x] d(2)
    have "d \<notin> set (cur_domain \<sigma>' x)" by auto
    with d(1) show ?thesis by auto
  qed
qed

subsection \<open>Termination of the queue loop\<close>

lemma finite_scope_vars: "finite (scope_vars cs)"
  by (simp add: scope_vars_def)

lemma scope_vars_mono: "set cs \<subseteq> set cs' \<Longrightarrow> scope_vars cs \<subseteq> scope_vars cs'"
  by (auto simp: scope_vars_def)

text \<open>
  One turn of the \<^verbatim>\<open>while\<close> loop that does not return either removes a value from the
  current domain of a scope variable, or leaves the domains alone and the queue one
  constraint shorter.
\<close>

lemma domain_size_step:
  assumes q: "queue \<noteq> []"
    and s: "GAC_scope p (last queue) (scope (last queue)) \<sigma> (butlast queue) pr =
            Continue \<sigma>' q' pr'"
  shows "domain_size p q' \<sigma>' < domain_size p queue \<sigma> \<or>
         (domain_size p q' \<sigma>' \<le> domain_size p queue \<sigma> \<and> length q' < length queue)"
proof -
  let ?V = "scope_vars (queue @ constraints p)" and ?V' = "scope_vars (q' @ constraints p)"
  have "set (butlast queue) \<subseteq> set queue" by (auto dest: in_set_butlastD)
  with GAC_scope_queue [OF s] have "set (q' @ constraints p) \<subseteq> set (queue @ constraints p)"
    by auto
  then have sub: "?V' \<subseteq> ?V" by (rule scope_vars_mono)
  have sh: "store_shrinks \<sigma> \<sigma>'" using s by (rule GAC_scope_shrink)
  have le1: "(\<Sum>v \<in> ?V'. length (cur_domain \<sigma>' v)) \<le> (\<Sum>v \<in> ?V. length (cur_domain \<sigma>' v))"
    using finite_scope_vars sub by (rule sum_mono2) simp
  have le2: "(\<Sum>v \<in> ?V. length (cur_domain \<sigma>' v)) \<le> (\<Sum>v \<in> ?V. length (cur_domain \<sigma> v))"
    by (rule sum_mono) (rule store_shrinks_length [OF sh])
  from GAC_scope_progress [OF s] show ?thesis
  proof (elim disjE conjE)
    assume "q' = butlast queue"
    with q have "length q' < length queue" by simp
    with le1 le2 show ?thesis by (simp add: domain_size_def)
  next
    assume "\<exists>x \<in> set (scope (last queue)). \<exists>d \<in> set (cur_domain \<sigma> x).
              d \<notin> set (cur_domain \<sigma>' x)"
    then obtain x d where x: "x \<in> set (scope (last queue))"
      and d: "d \<in> set (cur_domain \<sigma> x)" "d \<notin> set (cur_domain \<sigma>' x)" by blast
    from q x have xV: "x \<in> ?V" by (auto simp: scope_vars_def)
    have "length (cur_domain \<sigma>' x) < length (cur_domain \<sigma> x)"
      using sh d by (rule store_shrinks_less)
    with xV have "(\<Sum>v \<in> ?V. length (cur_domain \<sigma>' v)) < (\<Sum>v \<in> ?V. length (cur_domain \<sigma> v))"
      by (intro sum_strict_mono_ex1 finite_scope_vars ballI store_shrinks_length [OF sh]
            bexI [of _ x])
    with le1 show ?thesis by (simp add: domain_size_def)
  qed
qed

termination GAC_loop
proof (relation "measures [\<lambda>(p, queue, \<sigma>, pr). domain_size p queue \<sigma>,
                           \<lambda>(p, queue, \<sigma>, pr). length queue]", goal_cases)
  case 1
  show ?case by simp
next
  case 2
  then show ?case
    by (auto simp: queue_pop_def get_scope_def dest!: sym [of "(_, _)"] domain_size_step)
qed

declare GAC_loop.simps [simp del]

lemma GAC_loop_Nil: "GAC_loop p [] \<sigma> pr = (False, pr, \<sigma>)"
  by (simp add: GAC_loop.simps)

lemma GAC_loop_step:
  "queue \<noteq> [] \<Longrightarrow>
   GAC_loop p queue \<sigma> pr =
     (case GAC_scope p (last queue) (scope (last queue)) \<sigma> (butlast queue) pr of
        DWO pr1 \<sigma>1 \<Rightarrow> (True, pr1, \<sigma>1)
      | Continue \<sigma>1 q1 pr1 \<Rightarrow> GAC_loop p q1 \<sigma>1 pr1)"
  by (subst GAC_loop.simps) (simp add: queue_pop_def get_scope_def)

lemma GAC_loop_induct [case_names Empty Pop]:
  assumes "\<And>\<sigma> pr. P [] \<sigma> pr"
    and "\<And>queue \<sigma> pr. queue \<noteq> [] \<Longrightarrow>
           (\<And>\<sigma>1 q1 pr1.
              GAC_scope p (last queue) (scope (last queue)) \<sigma> (butlast queue) pr =
                Continue \<sigma>1 q1 pr1 \<Longrightarrow> P q1 \<sigma>1 pr1) \<Longrightarrow>
           P queue \<sigma> pr"
  shows "P queue \<sigma> pr"
proof -
  have "p' = p \<Longrightarrow> P queue \<sigma> pr" for p'
  proof (induction p' queue \<sigma> pr rule: GAC_loop.induct)
    case (1 p' queue \<sigma> pruned_vals)
    show ?case
    proof (cases "queue = []")
      case True
      then show ?thesis by (simp add: assms(1))
    next
      case False
      show ?thesis
      proof (rule assms(2) [OF False])
        fix \<sigma>1 q1 pr1
        assume "GAC_scope p (last queue) (scope (last queue)) \<sigma> (butlast queue) pruned_vals =
                  Continue \<sigma>1 q1 pr1"
        with False "1.prems" show "P q1 \<sigma>1 pr1"
          by (intro "1.IH" [of "last queue" "butlast queue"])
             (simp_all add: queue_pop_def get_scope_def)
      qed
    qed
  qed
  then show ?thesis by simp
qed




subsection \<open>Every listed pruning removes a value that is still there\<close>







lemma snapshot_rest:
  assumes "distinct (d # ds)" and "set (d # ds) \<subseteq> set (cur_domain \<sigma> x)"
  shows "distinct ds" and "set ds \<subseteq> set (cur_domain (prune_value \<sigma> x d) x)"
  using assms by (auto simp: cur_domain_prune)








subsection \<open>Arc consistency of the constraints off the queue\<close>

lemma tuple_supports_cong:
  assumes "\<forall>u \<in> set sc. cur_domain \<sigma>' u = cur_domain \<sigma> u"
  shows "tuple_supports \<sigma>' sc x d t = tuple_supports \<sigma> sc x d t"
proof -
  have "(if u = x then a = d else a \<in> set (cur_domain \<sigma>' u)) =
        (if u = x then a = d else a \<in> set (cur_domain \<sigma> u))"
    if "(u, a) \<in> set (zip sc t)" for u a
    using assms set_zip_leftD [OF that] by simp
  then show ?thesis unfolding tuple_supports_def list_all_iff by blast
qed

lemma has_support_cong:
  assumes "\<forall>u \<in> set (scope c). cur_domain \<sigma>' u = cur_domain \<sigma> u"
  shows "has_support \<sigma>' c x d = has_support \<sigma> c x d"
  unfolding has_support_def list_ex_iff tuple_supports_cong [OF assms] ..

lemma gac_consistent_cong:
  assumes "\<forall>u \<in> set (scope c). \<sigma>' u = \<sigma> u"
  shows "gac_consistent \<sigma>' c = gac_consistent \<sigma> c"
proof -
  from assms have eq: "\<forall>u \<in> set (scope c). cur_domain \<sigma>' u = cur_domain \<sigma> u"
    by (simp add: cur_domain_def)
  show ?thesis unfolding gac_consistent_def has_support_cong [OF eq] using eq by auto
qed

text \<open>
  The invariant of the queue loop: every constraint of the CSP that is not on the queue
  is arc consistent.
\<close>

lemma GAC_scope_invariant:
  assumes inv: "\<forall>c' \<in> set (constraints p). c' \<notin> set queue \<longrightarrow> gac_consistent \<sigma> c'"
    and q: "queue \<noteq> []"
    and s: "GAC_scope p (last queue) (scope (last queue)) \<sigma> (butlast queue) pr =
            Continue \<sigma>1 q1 pr1"
  shows "\<forall>c' \<in> set (constraints p). c' \<notin> set q1 \<longrightarrow> gac_consistent \<sigma>1 c'"
proof (intro ballI impI)
  fix c'
  assume c': "c' \<in> set (constraints p)" and nq: "c' \<notin> set q1"
  have same: "\<forall>u \<in> set (scope c'). \<sigma>1 u = \<sigma> u"
  proof (rule ballI, rule ccontr)
    fix u
    assume u: "u \<in> set (scope c')" and "\<sigma>1 u \<noteq> \<sigma> u"
    from GAC_scope_changed [OF s this(2)] have "set (get_cons_with_var p u) \<subseteq> set q1" by simp
    moreover from c' u have "c' \<in> set (get_cons_with_var p u)"
      by (simp add: get_cons_with_var_def)
    ultimately show False using nq by auto
  qed
  have "gac_consistent \<sigma> c'"
  proof (cases "c' = last queue")
    case True
    from GAC_scope_progress [OF s] show ?thesis
    proof (elim disjE conjE)
      assume "\<forall>x \<in> set (scope (last queue)). \<forall>d \<in> set (cur_domain \<sigma> x).
                has_support \<sigma> (last queue) x d"
      with True show ?thesis by (simp add: gac_consistent_def)
    next
      assume "\<exists>x \<in> set (scope (last queue)). \<exists>d \<in> set (cur_domain \<sigma> x).
                d \<notin> set (cur_domain \<sigma>1 x)"
      then obtain x d where "x \<in> set (scope c')" "d \<in> set (cur_domain \<sigma> x)"
        "d \<notin> set (cur_domain \<sigma>1 x)" using True by blast
      with same show ?thesis by (auto simp: cur_domain_def)
    qed
  next
    case False
    from GAC_scope_queue [OF s] nq have "c' \<notin> set (butlast queue)" by auto
    with False q have "c' \<notin> set queue"
      by (metis append_butlast_last_id rotate1.simps(2) set_ConsD set_rotate1)
    with inv c' show ?thesis by simp
  qed
  then show "gac_consistent \<sigma>1 c'" by (simp add: gac_consistent_cong [OF same])
qed

lemma GAC_loop_consistent:
  assumes "GAC_loop p queue \<sigma> pr = (False, pr', \<sigma>')"
    and "\<forall>c' \<in> set (constraints p). c' \<notin> set queue \<longrightarrow> gac_consistent \<sigma> c'"
  shows "\<forall>c' \<in> set (constraints p). gac_consistent \<sigma>' c'"
  using assms
proof (induction queue \<sigma> pr rule: GAC_loop_induct [where p = p])
  case (Empty \<sigma> pr)
  then show ?case by (simp add: GAC_loop_Nil)
next
  case (Pop queue \<sigma> pr)
  let ?r = "GAC_scope p (last queue) (scope (last queue)) \<sigma> (butlast queue) pr"
  show ?case
  proof (cases ?r)
    case (DWO pr1 \<sigma>1)
    with Pop.prems(1) Pop.hyps show ?thesis by (simp add: GAC_loop_step)
  next
    case (Continue \<sigma>1 q1 pr1)
    with Pop.prems(1) Pop.hyps have l: "GAC_loop p q1 \<sigma>1 pr1 = (False, pr', \<sigma>')"
      by (simp add: GAC_loop_step)
    from Pop.prems(2) Pop.hyps Continue
    have "\<forall>c' \<in> set (constraints p). c' \<notin> set q1 \<longrightarrow> gac_consistent \<sigma>1 c'"
      by (rule GAC_scope_invariant)
    with Pop.IH [OF Continue l] show ?thesis .
  qed
qed

lemma set_seed_queue: "set (seed_queue cs) = set cs"
proof -
  have "foldl (\<lambda>queue con. queue_push con queue) q cs = rev cs @ q" for q
    by (induction cs arbitrary: q) (simp_all add: queue_push_def)
  then show ?thesis by (simp add: seed_queue_def)
qed

lemma prop_GAC_consistent:
  assumes "prop_GAC p None \<sigma> = (True, pruned, \<sigma>')"
  shows "\<forall>c' \<in> set (constraints p). gac_consistent \<sigma>' c'"
proof -
  let ?q = "seed_queue (selected_cons p None)"
  from assms have "GAC_loop p ?q \<sigma> [] = (False, pruned, \<sigma>')"
    by (auto simp: prop_GAC_def GAC_def split: prod.splits if_splits)
  moreover have "\<forall>c' \<in> set (constraints p). c' \<notin> set ?q \<longrightarrow> gac_consistent \<sigma> c'"
    by (simp add: set_seed_queue selected_cons_def get_all_cons_def)
  ultimately show ?thesis by (rule GAC_loop_consistent)
qed

subsection \<open>A store on which the propagators find nothing to prune\<close>

lemma GAC_values_supported:
  "\<forall>d \<in> set ds. has_support \<sigma> c x d \<Longrightarrow> GAC_values p c x ds \<sigma> q pr = Continue \<sigma> q pr"
  by (induction ds) simp_all

lemma GAC_scope_supported:
  "\<forall>x \<in> set xs. \<forall>d \<in> set (cur_domain \<sigma> x). has_support \<sigma> c x d \<Longrightarrow>
   GAC_scope p c xs \<sigma> q pr = Continue \<sigma> q pr"
  by (induction xs) (simp_all add: GAC_values_supported)

lemma GAC_loop_supported:
  "\<forall>c \<in> set queue. gac_consistent \<sigma> c \<Longrightarrow> GAC_loop p queue \<sigma> pr = (False, pr, \<sigma>)"
proof (induction queue rule: rev_induct)
  case Nil
  show ?case by (rule GAC_loop_Nil)
next
  case (snoc c queue)
  then have "GAC_scope p c (scope c) \<sigma> queue pr = Continue \<sigma> queue pr"
    by (intro GAC_scope_supported) (simp add: gac_consistent_def)
  with snoc show ?case by (simp add: GAC_loop_step)
qed

lemma prop_GAC_supported:
  "\<forall>c \<in> set (constraints p). gac_consistent \<sigma> c \<Longrightarrow> prop_GAC p None \<sigma> = (True, [], \<sigma>)"
  by (simp add: prop_GAC_def GAC_def GAC_loop_supported set_seed_queue selected_cons_def
        get_all_cons_def)

lemma get_unasgn_vars_cong:
  "\<forall>v. assigned_value (\<sigma>' v) = assigned_value (\<sigma> v) \<Longrightarrow>
   get_unasgn_vars \<sigma>' c = get_unasgn_vars \<sigma> c"
  by (simp add: get_unasgn_vars_def)

lemma valued_assigned_cong:
  "\<forall>v. assigned_value (\<sigma>' v) = assigned_value (\<sigma> v) \<Longrightarrow>
   valued_assigned \<sigma>' c x d = valued_assigned \<sigma> c x d"
  by (simp add: valued_assigned_def get_assigned_value_def)

lemma store_shrinks_unasgn: "store_shrinks \<sigma> \<sigma>' \<Longrightarrow> get_unasgn_vars \<sigma>' c = get_unasgn_vars \<sigma> c"
  by (rule get_unasgn_vars_cong) (simp add: store_shrinks_def)

lemma store_shrinks_valued: "store_shrinks \<sigma> \<sigma>' \<Longrightarrow> valued_assigned \<sigma>' c x d = valued_assigned \<sigma> c x d"
  by (rule valued_assigned_cong) (simp add: store_shrinks_def)

lemma FCCheck_loop_shrink:
  "FCCheck_loop c x ds \<sigma> pr = (dwo, pr', \<sigma>') \<Longrightarrow> store_shrinks \<sigma> \<sigma>'"
proof (induction ds arbitrary: \<sigma> pr)
  case Nil
  then show ?case by (simp add: store_shrinks_refl)
next
  case (Cons d ds)
  show ?case
  proof (cases "check c (valued_assigned \<sigma> c x d)")
    case True
    with Cons.prems Cons.IH [of \<sigma> pr] show ?thesis
      by (auto simp: store_shrinks_refl split: if_splits)
  next
    case False
    with Cons.prems Cons.IH [of "prune_value \<sigma> x d" "pr @ [(x, d)]"]
    have "store_shrinks (prune_value \<sigma> x d) \<sigma>'"
      by (auto simp: Let_def store_shrinks_refl split: if_splits)
    with store_shrinks_prune show ?thesis by (rule store_shrinks_trans)
  qed
qed

lemma FCCheck_shrink: "FCCheck c x \<sigma> = (dwo, pr', \<sigma>') \<Longrightarrow> store_shrinks \<sigma> \<sigma>'"
  unfolding FCCheck_def by (rule FCCheck_loop_shrink)

lemma prop_FC_loop_shrink:
  "prop_FC_loop cs \<sigma> pr = (ok, pr', \<sigma>') \<Longrightarrow> store_shrinks \<sigma> \<sigma>'"
proof (induction cs arbitrary: \<sigma> pr)
  case Nil
  then show ?case by (simp add: store_shrinks_refl)
next
  case (Cons con cs)
  show ?case
  proof (cases "get_n_unasgn \<sigma> con = 1")
    case False
    with Cons.prems Cons.IH [of \<sigma> pr] show ?thesis by simp
  next
    case True
    obtain dwo new \<sigma>1 where f: "FCCheck con (hd (get_unasgn_vars \<sigma> con)) \<sigma> = (dwo, new, \<sigma>1)"
      by (cases "FCCheck con (hd (get_unasgn_vars \<sigma> con)) \<sigma>")
    note s1 = FCCheck_shrink [OF f]
    show ?thesis
    proof (cases dwo)
      case True
      with Cons.prems \<open>get_n_unasgn \<sigma> con = 1\<close> f s1 show ?thesis by simp
    next
      case False
      with Cons.prems \<open>get_n_unasgn \<sigma> con = 1\<close> f
      have "prop_FC_loop cs \<sigma>1 (pr @ new) = (ok, pr', \<sigma>')" by simp
      from s1 Cons.IH [OF this] show ?thesis by (rule store_shrinks_trans)
    qed
  qed
qed

lemma FCCheck_loop_checked:
  "FCCheck_loop c x ds \<sigma> pr = (False, pr', \<sigma>') \<Longrightarrow> d \<in> set ds \<Longrightarrow>
   d \<in> set (cur_domain \<sigma>' x) \<Longrightarrow> check c (valued_assigned \<sigma> c x d)"
proof (induction ds arbitrary: \<sigma> pr)
  case Nil
  then show ?case by simp
next
  case (Cons e ds)
  show ?case
  proof (cases "check c (valued_assigned \<sigma> c x e)")
    case True
    with Cons.prems(1) have r: "FCCheck_loop c x ds \<sigma> pr = (False, pr', \<sigma>')"
      by (auto split: if_splits)
    from Cons.prems(2) True Cons.IH [OF r _ Cons.prems(3)] show ?thesis by auto
  next
    case False
    let ?\<sigma>1 = "prune_value \<sigma> x e"
    from False Cons.prems(1) have r: "FCCheck_loop c x ds ?\<sigma>1 (pr @ [(x, e)]) = (False, pr', \<sigma>')"
      by (auto simp: Let_def split: if_splits)
    have "e \<notin> set (cur_domain ?\<sigma>1 x)" by (simp add: cur_domain_prune)
    with store_shrinks_set [OF FCCheck_loop_shrink [OF r], of x] Cons.prems(3)
    have "d \<noteq> e" by auto
    with Cons.prems(2) have "d \<in> set ds" by simp
    from Cons.IH [OF r this Cons.prems(3)]
    show ?thesis by (simp add: store_shrinks_valued [OF store_shrinks_prune])
  qed
qed

lemma FCCheck_checked:
  assumes "FCCheck c x \<sigma> = (False, new, \<sigma>')" and "d \<in> set (cur_domain \<sigma>' x)"
  shows "check c (valued_assigned \<sigma>' c x d)"
proof -
  from assms(1) have l: "FCCheck_loop c x (cur_domain \<sigma> x) \<sigma> [] = (False, new, \<sigma>')"
    by (simp add: FCCheck_def)
  note sh = FCCheck_loop_shrink [OF l]
  from store_shrinks_set [OF sh, of x] assms(2) have "d \<in> set (cur_domain \<sigma> x)" by auto
  from FCCheck_loop_checked [OF l this assms(2)] show ?thesis
    by (simp add: store_shrinks_valued [OF sh])
qed

lemma fc_consistent_shrinks:
  assumes "store_shrinks \<sigma> \<sigma>'" and "fc_consistent \<sigma> c"
  shows "fc_consistent \<sigma>' c"
  using assms(2) store_shrinks_set [OF assms(1)]
  unfolding fc_consistent_def get_n_unasgn_def
    store_shrinks_unasgn [OF assms(1)] store_shrinks_valued [OF assms(1)]
  by blast

lemma prop_FC_loop_consistent:
  "prop_FC_loop cs \<sigma> pr = (True, pr', \<sigma>') \<Longrightarrow> \<forall>c \<in> set cs. fc_consistent \<sigma>' c"
proof (induction cs arbitrary: \<sigma> pr)
  case Nil
  then show ?case by simp
next
  case (Cons con cs)
  show ?case
  proof (cases "get_n_unasgn \<sigma> con = 1")
    case False
    with Cons.prems have r: "prop_FC_loop cs \<sigma> pr = (True, pr', \<sigma>')" by simp
    from False have "fc_consistent \<sigma> con" by (simp add: fc_consistent_def)
    with prop_FC_loop_shrink [OF r] have "fc_consistent \<sigma>' con" by (rule fc_consistent_shrinks)
    with Cons.IH [OF r] show ?thesis by simp
  next
    case True
    let ?x = "hd (get_unasgn_vars \<sigma> con)"
    obtain dwo new \<sigma>1 where f: "FCCheck con ?x \<sigma> = (dwo, new, \<sigma>1)"
      by (cases "FCCheck con ?x \<sigma>")
    with Cons.prems True have nd: "\<not> dwo" and r: "prop_FC_loop cs \<sigma>1 (pr @ new) = (True, pr', \<sigma>')"
      by (auto split: if_splits)
    from f nd have f': "FCCheck con ?x \<sigma> = (False, new, \<sigma>1)" by simp
    have "fc_consistent \<sigma>1 con"
      unfolding fc_consistent_def store_shrinks_unasgn [OF FCCheck_shrink [OF f']]
      using FCCheck_checked [OF f'] by blast
    with prop_FC_loop_shrink [OF r] have "fc_consistent \<sigma>' con" by (rule fc_consistent_shrinks)
    with Cons.IH [OF r] show ?thesis by simp
  qed
qed

lemma FCCheck_loop_nothing:
  "cur_domain \<sigma> x \<noteq> [] \<Longrightarrow> \<forall>d \<in> set ds. check c (valued_assigned \<sigma> c x d) \<Longrightarrow>
   FCCheck_loop c x ds \<sigma> pr = (False, pr, \<sigma>)"
  by (induction ds) simp_all

lemma FCCheck_nothing:
  assumes "\<forall>d \<in> set (cur_domain \<sigma> x). check c (valued_assigned \<sigma> c x d)"
  shows "FCCheck c x \<sigma> = (False, [], \<sigma>)"
proof (cases "cur_domain \<sigma> x = []")
  case True
  then show ?thesis by (simp add: FCCheck_def)
next
  case False
  then show ?thesis unfolding FCCheck_def using assms by (rule FCCheck_loop_nothing)
qed

lemma prop_FC_loop_nothing:
  "\<forall>c \<in> set cs. fc_consistent \<sigma> c \<Longrightarrow> prop_FC_loop cs \<sigma> pr = (True, pr, \<sigma>)"
  by (induction cs) (auto simp: fc_consistent_def FCCheck_nothing)

subsection \<open>Every pruning of forward checking has a violated constraint behind it\<close>

lemma fc_justified_cong:
  assumes "\<forall>v. assigned_value (\<sigma>' v) = assigned_value (\<sigma> v)"
  shows "fc_justified \<sigma>' cs e = fc_justified \<sigma> cs e"
  unfolding fc_justified_def get_n_unasgn_def
    get_unasgn_vars_cong [OF assms] valued_assigned_cong [OF assms] ..

lemma FCCheck_loop_sound:
  assumes "\<forall>v. assigned_value (\<sigma> v) = assigned_value (\<sigma>0 v)"
    and "\<forall>e \<in> set pr. P e"
    and "\<And>d. \<not> check c (valued_assigned \<sigma>0 c x d) \<Longrightarrow> P (x, d)"
    and "FCCheck_loop c x ds \<sigma> pr = (dwo, pr', \<sigma>')"
  shows "\<forall>e \<in> set pr'. P e"
  using assms(1,2,4)
proof (induction ds arbitrary: \<sigma> pr)
  case Nil
  then show ?case by simp
next
  case (Cons d ds)
  note va = valued_assigned_cong [OF Cons.prems(1), of c x d]
  show ?case
  proof (cases "check c (valued_assigned \<sigma> c x d)")
    case True
    with Cons.prems(3) have "(dwo, pr', \<sigma>') = (True, pr, \<sigma>) \<or>
        FCCheck_loop c x ds \<sigma> pr = (dwo, pr', \<sigma>')"
      by (auto split: if_splits)
    then show ?thesis
    proof
      assume "(dwo, pr', \<sigma>') = (True, pr, \<sigma>)"
      with Cons.prems(2) show ?thesis by simp
    next
      assume "FCCheck_loop c x ds \<sigma> pr = (dwo, pr', \<sigma>')"
      with Cons.prems(1,2) show ?thesis by (rule Cons.IH)
    qed
  next
    case False
    let ?\<sigma>1 = "prune_value \<sigma> x d" and ?pr1 = "pr @ [(x, d)]"
    from False va have "P (x, d)" by (intro assms(3)) simp
    with Cons.prems(2) have p1: "\<forall>e \<in> set ?pr1. P e" by simp
    have a1: "\<forall>v. assigned_value (?\<sigma>1 v) = assigned_value (\<sigma>0 v)"
      using Cons.prems(1) by (simp add: assigned_prune)
    from False Cons.prems(3) have "(dwo, pr', \<sigma>') = (True, ?pr1, ?\<sigma>1) \<or>
        FCCheck_loop c x ds ?\<sigma>1 ?pr1 = (dwo, pr', \<sigma>')"
      by (auto simp: Let_def split: if_splits)
    then show ?thesis
    proof
      assume "(dwo, pr', \<sigma>') = (True, ?pr1, ?\<sigma>1)"
      with p1 show ?thesis by simp
    next
      assume "FCCheck_loop c x ds ?\<sigma>1 ?pr1 = (dwo, pr', \<sigma>')"
      with a1 p1 show ?thesis by (rule Cons.IH)
    qed
  qed
qed

lemma single_unassigned:
  "get_n_unasgn \<sigma> c = 1 \<Longrightarrow> get_unasgn_vars \<sigma> c = [hd (get_unasgn_vars \<sigma> c)]"
  by (cases "get_unasgn_vars \<sigma> c") (simp_all add: get_n_unasgn_def)

lemma prop_FC_loop_sound:
  assumes "set cs \<subseteq> set cs0"
    and "\<forall>v. assigned_value (\<sigma> v) = assigned_value (\<sigma>0 v)"
    and "\<forall>e \<in> set pr. fc_justified \<sigma>0 cs0 e"
    and "prop_FC_loop cs \<sigma> pr = (ok, pr', \<sigma>')"
  shows "\<forall>e \<in> set pr'. fc_justified \<sigma>0 cs0 e"
  using assms
proof (induction cs arbitrary: \<sigma> pr)
  case Nil
  then show ?case by simp
next
  case (Cons con cs)
  from Cons.prems(1) have sub: "set cs \<subseteq> set cs0" and con: "con \<in> set cs0" by simp_all
  show ?case
  proof (cases "get_n_unasgn \<sigma> con = 1")
    case False
    with Cons.prems(4) have "prop_FC_loop cs \<sigma> pr = (ok, pr', \<sigma>')" by simp
    with sub Cons.prems(2,3) show ?thesis by (rule Cons.IH)
  next
    case True
    let ?x = "hd (get_unasgn_vars \<sigma> con)"
    obtain dwo new \<sigma>1 where f: "FCCheck con ?x \<sigma> = (dwo, new, \<sigma>1)"
      by (cases "FCCheck con ?x \<sigma>")
    have u0: "get_unasgn_vars \<sigma>0 con = [?x]"
      using single_unassigned [OF True] get_unasgn_vars_cong [OF Cons.prems(2), of con] by simp
    then have n0: "get_n_unasgn \<sigma>0 con = 1" by (simp add: get_n_unasgn_def)
    have step: "fc_justified \<sigma>0 cs0 (?x, d)" if "\<not> check con (valued_assigned \<sigma>0 con ?x d)" for d
      unfolding fc_justified_def using con u0 n0 that by auto
    have "\<forall>e \<in> set []. fc_justified \<sigma>0 cs0 e" by simp
    with Cons.prems(2) have "\<forall>e \<in> set new. fc_justified \<sigma>0 cs0 e"
      using step f [unfolded FCCheck_def] by (rule FCCheck_loop_sound)
    with Cons.prems(3) have all: "\<forall>e \<in> set (pr @ new). fc_justified \<sigma>0 cs0 e" by auto
    show ?thesis
    proof (cases dwo)
      case True
      with Cons.prems(4) \<open>get_n_unasgn \<sigma> con = 1\<close> f all show ?thesis by auto
    next
      case False
      with Cons.prems(4) True f have r: "prop_FC_loop cs \<sigma>1 (pr @ new) = (ok, pr', \<sigma>')" by simp
      have "\<forall>v. assigned_value (\<sigma>1 v) = assigned_value (\<sigma>0 v)"
        using store_shrinks_assigned [OF FCCheck_shrink [OF f]] Cons.prems(2) by simp
      with sub show ?thesis using all r by (rule Cons.IH)
    qed
  qed
qed

subsection \<open>A value without support in a singleton domain\<close>










subsection \<open>The order of the queue\<close>

lemma seed_queue_rev: "seed_queue cs = rev cs"
proof -
  have "foldl (\<lambda>queue con. queue_push con queue) q cs = rev cs @ q" for q
    by (induction cs arbitrary: q) (simp_all add: queue_push_def)
  then show ?thesis by (simp add: seed_queue_def)
qed

lemma enqueue_missing_append: "\<exists>new. enqueue_missing cs queue = new @ queue"
  by (induction cs arbitrary: queue) (auto simp: queue_push_def, metis append.assoc append_Cons append_Nil)

lemma wide_state_differs:
  "width wide_state \<noteq> height wide_state \<and>
   edge_without_storage (1, 1) wide_state \<and>
   \<not> edge_without_storage_symmetric (1, 1) wide_state"
  by code_simp

section \<open>Properties of plain backtracking\<close>

lemma check_Some: "check c (map Some t) = (t \<in> set (satisfying_tuples c))"
  by (auto simp: check_def list_ex_iff)

lemma all_assigned_tuple:
  "get_n_unasgn \<sigma> c = 0 \<Longrightarrow>
   map (get_assigned_value \<sigma>) (scope c) = map Some (map (\<lambda>v. the (assigned_value (\<sigma> v))) (scope c))"
  by (auto simp: get_n_unasgn_def get_unasgn_vars_def get_assigned_value_def filter_empty_conv)

lemma check_all_assigned:
  assumes "get_n_unasgn \<sigma> c = 0"
  shows "check c (map (get_assigned_value \<sigma>) (scope c)) =
         (map (\<lambda>v. the (assigned_value (\<sigma> v))) (scope c) \<in> set (satisfying_tuples c))"
  unfolding all_assigned_tuple [OF assms] by (rule check_Some)

lemma prop_BT_loop_result:
  "prop_BT_loop \<sigma> cs =
     (\<not> (\<exists>c \<in> set cs. get_n_unasgn \<sigma> c = 0 \<and>
            map (\<lambda>v. the (assigned_value (\<sigma> v))) (scope c) \<notin> set (satisfying_tuples c)), [])"
  by (induction cs) (auto simp: Let_def get_scope_def check_all_assigned)

text \<open>
  Claim C6. Called with no newly assigned variable, \<^verbatim>\<open>prop_BT\<close> returns
  \<open>(True, [])\<close>. Called with a newly assigned variable \<open>V\<close>, it returns
  \<open>(False, [])\<close> exactly when some constraint of the CSP whose scope contains \<open>V\<close> has no
  unassigned variable and the tuple of the assigned values of its scope, in scope order,
  is not one of its satisfying tuples; otherwise it returns \<open>(True, [])\<close>. The list of
  prunings is empty and the store is the one given, in every case.
\<close>

theorem prop_BT_result:
  "prop_BT p None \<sigma> = (True, [], \<sigma>) \<and>
   prop_BT p (Some V) \<sigma> =
     (\<not> (\<exists>c \<in> set (constraints p). V \<in> set (scope c) \<and> get_n_unasgn \<sigma> c = 0 \<and>
            map (\<lambda>v. the (assigned_value (\<sigma> v))) (scope c) \<notin> set (satisfying_tuples c)),
      [], \<sigma>)"
  by (auto simp: prop_BT_def prop_BT_loop_result get_cons_with_var_def)

theorem prop_BT_result_witness:
  "prop_BT clash_csp None clash_store = (True, [], clash_store) \<and>
   prop_BT clash_csp (Some 0) clash_store = (False, [], clash_store) \<and>
   prop_BT grid_csp (Some 0) grid_store = (True, [], grid_store)"
proof -
  have "\<exists>c \<in> set (constraints clash_csp). 0 \<in> set (scope c) \<and> get_n_unasgn clash_store c = 0 \<and>
          map (\<lambda>v. the (assigned_value (clash_store v))) (scope c) \<notin> set (satisfying_tuples c)"
    by code_simp
  moreover have "\<not> (\<exists>c \<in> set (constraints grid_csp). 0 \<in> set (scope c) \<and>
          get_n_unasgn grid_store c = 0 \<and>
          map (\<lambda>v. the (assigned_value (grid_store v))) (scope c) \<notin> set (satisfying_tuples c))"
    by code_simp
  ultimately show ?thesis
    using prop_BT_result [of clash_csp clash_store 0] prop_BT_result [of grid_csp grid_store 0]
    by simp
qed


section \<open>The prunings a propagator reports\<close>








section \<open>The fixpoint of \<^verbatim>\<open>prop_GAC\<close>\<close>

text \<open>
  Claim C2. After a call of \<^verbatim>\<open>prop_GAC\<close> with no newly assigned variable that reports
  consistency, every constraint of the CSP has a support for every value of the current
  domain of every variable of its scope.
\<close>

theorem prop_GAC_fixpoint:
  assumes "prop_GAC p None \<sigma> = (True, pruned, \<sigma>')"
  shows "\<forall>c \<in> set (constraints p). \<forall>v \<in> set (scope c). \<forall>d \<in> set (cur_domain \<sigma>' v).
           has_support \<sigma>' c v d"
  using prop_GAC_consistent [OF assms] by (simp add: gac_consistent_def)

theorem prop_GAC_fixpoint_witness:
  "fst (prop_GAC grid_csp None grid_store) = True \<and>
   cur_domain (snd (snd (prop_GAC grid_csp None grid_store))) 3 = [1] \<and>
   has_support (snd (snd (prop_GAC grid_csp None grid_store)))
     \<lparr>cid = 3, scope = [1, 3], satisfying_tuples = ne_tuples\<rparr> 3 1"
proof -
  let ?r = "prop_GAC grid_csp None grid_store"
  let ?c = "\<lparr>cid = 3, scope = [1, 3], satisfying_tuples = ne_tuples\<rparr>"
  have ok: "fst ?r = True" by code_simp
  have d: "cur_domain (snd (snd ?r)) 3 = [1]" by code_simp
  have "?r = (True, fst (snd ?r), snd (snd ?r))" by (subst ok [symmetric]) simp
  from prop_GAC_fixpoint [OF this]
  have "\<forall>c \<in> set (constraints grid_csp). \<forall>v \<in> set (scope c).
          \<forall>d \<in> set (cur_domain (snd (snd ?r)) v). has_support (snd (snd ?r)) c v d" .
  moreover have "?c \<in> set (constraints grid_csp)" by (simp add: grid_csp_def grid_cons_def)
  ultimately have "\<forall>d \<in> set (cur_domain (snd (snd ?r)) 3). has_support (snd (snd ?r)) ?c 3 d"
    by fastforce
  with d have "has_support (snd (snd ?r)) ?c 3 1" by simp
  with ok d show ?thesis by (intro conjI)
qed

section \<open>Idempotence\<close>

text \<open>
  Claim C7. A store is at the fixpoint of a strategy when it is the store left behind
  by a call of that strategy with no newly assigned variable that reported consistency.
  For each of \<^verbatim>\<open>prop_BT\<close>, \<^verbatim>\<open>prop_FC\<close> and \<^verbatim>\<open>prop_GAC\<close>, calling the same
  strategy again on such a store, with no newly assigned variable, returns
  \<open>(True, [])\<close> and leaves the store as it is.
\<close>

theorem propagation_idempotent:
  "(prop_BT p None \<sigma> = (True, pruned, \<sigma>') \<longrightarrow> prop_BT p None \<sigma>' = (True, [], \<sigma>')) \<and>
   (prop_FC p None \<sigma> = (True, pruned, \<sigma>') \<longrightarrow> prop_FC p None \<sigma>' = (True, [], \<sigma>')) \<and>
   (prop_GAC p None \<sigma> = (True, pruned, \<sigma>') \<longrightarrow> prop_GAC p None \<sigma>' = (True, [], \<sigma>'))"
proof (intro conjI impI)
  show "prop_BT p None \<sigma>' = (True, [], \<sigma>')" by (simp add: prop_BT_def)
next
  assume "prop_FC p None \<sigma> = (True, pruned, \<sigma>')"
  then have "\<forall>c \<in> set (selected_cons p None). fc_consistent \<sigma>' c"
    unfolding prop_FC_def by (rule prop_FC_loop_consistent)
  then show "prop_FC p None \<sigma>' = (True, [], \<sigma>')"
    unfolding prop_FC_def by (rule prop_FC_loop_nothing)
next
  assume "prop_GAC p None \<sigma> = (True, pruned, \<sigma>')"
  then have "\<forall>c \<in> set (constraints p). gac_consistent \<sigma>' c"
    by (rule prop_GAC_consistent)
  then show "prop_GAC p None \<sigma>' = (True, [], \<sigma>')" by (rule prop_GAC_supported)
qed


theorem propagation_idempotent_witness:
  "prop_BT grid_csp None grid_store = (True, [], grid_store) \<and>
   fst (prop_FC grid_csp None grid_store) = True \<and>
   fst (snd (prop_FC grid_csp None grid_store)) = [(1, 1), (2, 1)] \<and>
   prop_FC grid_csp None (snd (snd (prop_FC grid_csp None grid_store))) =
     (True, [], snd (snd (prop_FC grid_csp None grid_store))) \<and>
   fst (prop_GAC grid_csp None grid_store) = True \<and>
   fst (snd (prop_GAC grid_csp None grid_store)) = [(1, 1), (2, 1), (3, 2)] \<and>
   prop_GAC grid_csp None (snd (snd (prop_GAC grid_csp None grid_store))) =
     (True, [], snd (snd (prop_GAC grid_csp None grid_store)))"
proof -
  let ?f = "prop_FC grid_csp None grid_store" and ?g = "prop_GAC grid_csp None grid_store"
  have f1: "fst ?f = True" by code_simp
  have f2: "fst (snd ?f) = [(1, 1), (2, 1)]" by code_simp
  have g1: "fst ?g = True" by code_simp
  have g2: "fst (snd ?g) = [(1, 1), (2, 1), (3, 2)]" by code_simp
  have b: "prop_BT grid_csp None grid_store = (True, [], grid_store)" by (simp add: prop_BT_def)
  have f: "?f = (True, fst (snd ?f), snd (snd ?f))" by (subst f1 [symmetric]) simp
  have g: "?g = (True, fst (snd ?g), snd (snd ?g))" by (subst g1 [symmetric]) simp
  from propagation_idempotent [of grid_csp grid_store "fst (snd ?f)" "snd (snd ?f)"] f
  have f3: "prop_FC grid_csp None (snd (snd ?f)) = (True, [], snd (snd ?f))" by blast
  from propagation_idempotent [of grid_csp grid_store "fst (snd ?g)" "snd (snd ?g)"] g
  have g3: "prop_GAC grid_csp None (snd (snd ?g)) = (True, [], snd (snd ?g))" by blast
  from b f1 f2 f3 g1 g2 g3 show ?thesis by (intro conjI)
qed

section \<open>Soundness of forward checking\<close>

text \<open>
  Claim C5. For every call of \<^verbatim>\<open>prop_FC\<close> and every pair \<open>(x, v)\<close> of the returned
  list: in the store of the moment of its pruning (the store given, with the pairs listed
  before it pruned), one of the selected constraints has exactly one unassigned variable,
  which is \<open>x\<close>, and the tuple in scope order that holds \<open>v\<close> for \<open>x\<close> and the assigned
  value for every other variable of the scope is not a satisfying tuple of it.
\<close>

theorem prop_FC_sound:
  assumes "prop_FC p newVar \<sigma> = (ok, pruned, \<sigma>')" and "i < length pruned"
  shows "\<exists>c \<in> set (selected_cons p newVar).
           get_n_unasgn (apply_prunings \<sigma> (take i pruned)) c = 1 \<and>
           get_unasgn_vars (apply_prunings \<sigma> (take i pruned)) c = [fst (pruned ! i)] \<and>
           \<not> check c (valued_assigned (apply_prunings \<sigma> (take i pruned)) c
                       (fst (pruned ! i)) (snd (pruned ! i)))"
proof -
  let ?cs = "selected_cons p newVar"
  have "\<forall>e \<in> set pruned. fc_justified \<sigma> ?cs e"
  proof (rule prop_FC_loop_sound)
    show "set ?cs \<subseteq> set ?cs" by simp
    show "\<forall>v. assigned_value (\<sigma> v) = assigned_value (\<sigma> v)" by simp
    show "\<forall>e \<in> set []. fc_justified \<sigma> ?cs e" by simp
    show "prop_FC_loop ?cs \<sigma> [] = (ok, pruned, \<sigma>')" using assms(1) by (simp add: prop_FC_def)
  qed
  with assms(2) have "fc_justified \<sigma> ?cs (pruned ! i)" by simp
  then have "fc_justified (apply_prunings \<sigma> (take i pruned)) ?cs (pruned ! i)"
    by (subst fc_justified_cong) (simp_all add: assigned_apply_prunings)
  then show ?thesis by (simp add: fc_justified_def)
qed

theorem prop_FC_sound_witness:
  "fst (snd (prop_FC grid_csp (Some 0) grid_store)) = [(1, 1), (2, 1)] \<and>
   (\<exists>c \<in> set (selected_cons grid_csp (Some 0)).
      get_n_unasgn (apply_prunings grid_store [(1, 1)]) c = 1 \<and>
      get_unasgn_vars (apply_prunings grid_store [(1, 1)]) c = [2] \<and>
      \<not> check c (valued_assigned (apply_prunings grid_store [(1, 1)]) c 2 1))"
proof -
  let ?r = "prop_FC grid_csp (Some 0) grid_store"
  have pr: "fst (snd ?r) = [(1, 1), (2, 1)]" by code_simp
  have r: "?r = (fst ?r, fst (snd ?r), snd (snd ?r))" by simp
  have "(1 :: nat) < length (fst (snd ?r))" by (simp add: pr)
  from prop_FC_sound [OF r this] pr show ?thesis by simp
qed

section \<open>Assigned variables in \<^verbatim>\<open>GAC\<close>\<close>




section \<open>The discipline of the propagation queue\<close>

text \<open>
  Claim C8 says that the queue of \<^verbatim>\<open>GAC\<close> is a stack: the constraint removed is the one
  most recently added. The code adds at the front of the list and removes from its end.
  Seeding the queue with two constraints of the grid adds the first and then the second,
  and the pop that follows returns the first, not the one added last.
\<close>

theorem queue_is_not_LIFO:
  "seed_queue [grid_cons ! 0, grid_cons ! 1] = queue_push (grid_cons ! 1) (queue_push (grid_cons ! 0) []) \<and>
   fst (queue_pop (seed_queue [grid_cons ! 0, grid_cons ! 1])) = grid_cons ! 0 \<and>
   fst (queue_pop (seed_queue [grid_cons ! 0, grid_cons ! 1])) \<noteq> grid_cons ! 1"
  by code_simp


text \<open>
  Claim C8, amended. The queue is processed first in, first out. A pop after a push onto
  an empty queue returns the pushed constraint; a pop after a push onto a queue that is
  not empty returns what a pop of that queue returns and leaves the pushed constraint
  behind; the first pop after the seeding loop of \<^verbatim>\<open>prop_GAC\<close> returns the first
  constraint of the selected list; and the constraints that \<^verbatim>\<open>GAC\<close> enqueues after a
  pruning leave a queue that is not empty only after the constraints already on it.
\<close>

theorem queue_is_FIFO:
  "queue_pop (queue_push con []) = (con, []) \<and>
   (queue \<noteq> [] \<longrightarrow>
      queue_pop (queue_push con queue) =
        (fst (queue_pop queue), queue_push con (snd (queue_pop queue)))) \<and>
   queue_pop (seed_queue (con # cons)) = (con, seed_queue cons) \<and>
   (queue \<noteq> [] \<longrightarrow> fst (queue_pop (enqueue_missing cons queue)) = fst (queue_pop queue))"
proof (intro conjI impI)
  show "queue_pop (queue_push con []) = (con, [])"
    by (simp add: queue_pop_def queue_push_def)
  show "queue_pop (seed_queue (con # cons)) = (con, seed_queue cons)"
    by (simp add: seed_queue_rev queue_pop_def)
next
  assume "queue \<noteq> []"
  then show "queue_pop (queue_push con queue) =
        (fst (queue_pop queue), queue_push con (snd (queue_pop queue)))"
    by (simp add: queue_pop_def queue_push_def)
next
  assume q: "queue \<noteq> []"
  obtain new where "enqueue_missing cons queue = new @ queue"
    using enqueue_missing_append by blast
  with q show "fst (queue_pop (enqueue_missing cons queue)) = fst (queue_pop queue)"
    by (simp add: queue_pop_def)
qed

theorem queue_is_FIFO_witness:
  "queue_push (grid_cons ! 0) [] \<noteq> [] \<and>
   queue_pop (queue_push (grid_cons ! 1) (queue_push (grid_cons ! 0) [])) =
     (grid_cons ! 0, queue_push (grid_cons ! 1) []) \<and>
   queue_pop (seed_queue [grid_cons ! 0, grid_cons ! 1]) = (grid_cons ! 0, seed_queue [grid_cons ! 1]) \<and>
   fst (queue_pop (enqueue_missing [grid_cons ! 2, grid_cons ! 3] (queue_push (grid_cons ! 0) []))) =
     grid_cons ! 0"
proof -
  have ne: "queue_push (grid_cons ! 0) [] \<noteq> []" by (simp add: queue_push_def)
  have p: "queue_pop (queue_push (grid_cons ! 0) []) = (grid_cons ! 0, [])"
    by (simp add: queue_push_def queue_pop_def)
  note f = queue_is_FIFO [where con = "grid_cons ! 1" and queue = "queue_push (grid_cons ! 0) []"
      and cons = "[grid_cons ! 1]"]
  note f' = queue_is_FIFO [where con = "grid_cons ! 0" and queue = "[]"
      and cons = "[grid_cons ! 1]"]
  note g = queue_is_FIFO [where con = "grid_cons ! 1" and queue = "queue_push (grid_cons ! 0) []"
      and cons = "[grid_cons ! 2, grid_cons ! 3]"]
  from f ne p have 1: "queue_pop (queue_push (grid_cons ! 1) (queue_push (grid_cons ! 0) [])) =
     (grid_cons ! 0, queue_push (grid_cons ! 1) [])" by simp
  from f' have 2: "queue_pop (seed_queue [grid_cons ! 0, grid_cons ! 1]) =
     (grid_cons ! 0, seed_queue [grid_cons ! 1])" by blast
  from g ne p have 3: "fst (queue_pop (enqueue_missing [grid_cons ! 2, grid_cons ! 3]
     (queue_push (grid_cons ! 0) []))) = grid_cons ! 0" by simp
  from ne 1 2 3 show ?thesis by (intro conjI)
qed


section \<open>The bottom boundary in \<^verbatim>\<open>edge_without_storage\<close>\<close>

text \<open>
  Claim C9. For a box on the bottom boundary that is on no other boundary,
  \<^verbatim>\<open>edge_without_storage\<close> tests whether \<open>width - 1\<close> occurs among the second
  coordinates of the available storage positions, where the symmetric rule tests
  \<open>height - 1\<close>; and there is a state whose width differs from its height on which the
  two disagree.
\<close>

theorem edge_without_storage_bottom:
  "(x \<noteq> 0 \<and> x \<noteq> width s - 1 \<and> y \<noteq> 0 \<and> y = height s - 1 \<longrightarrow>
      edge_without_storage (x, y) s = (width s - 1 \<notin> snd ` set (possible_storages s)) \<and>
      edge_without_storage_symmetric (x, y) s =
        (height s - 1 \<notin> snd ` set (possible_storages s))) \<and>
   (\<exists>b s. width s \<noteq> height s \<and> edge_without_storage b s \<noteq> edge_without_storage_symmetric b s)"
proof (intro conjI impI)
  assume "x \<noteq> 0 \<and> x \<noteq> width s - 1 \<and> y \<noteq> 0 \<and> y = height s - 1"
  then show "edge_without_storage (x, y) s = (width s - 1 \<notin> snd ` set (possible_storages s))"
    and "edge_without_storage_symmetric (x, y) s =
        (height s - 1 \<notin> snd ` set (possible_storages s))"
    by (simp_all add: edge_without_storage_def edge_without_storage_symmetric_def Let_def)
next
  from wide_state_differs
  have "width wide_state \<noteq> height wide_state \<and>
        edge_without_storage (1, 1) wide_state \<noteq> edge_without_storage_symmetric (1, 1) wide_state"
    by simp
  then show "\<exists>b s. width s \<noteq> height s \<and>
      edge_without_storage b s \<noteq> edge_without_storage_symmetric b s" by blast
qed

theorem edge_without_storage_bottom_witness:
  "(1 :: int) \<noteq> 0 \<and> 1 \<noteq> width wide_state - 1 \<and> 1 = height wide_state - 1 \<and>
   width wide_state \<noteq> height wide_state \<and>
   possible_storages wide_state = [(0, 1)] \<and>
   edge_without_storage (1, 1) wide_state = True \<and>
   edge_without_storage_symmetric (1, 1) wide_state = False"
proof -
  have h: "(1 :: int) \<noteq> 0 \<and> 1 \<noteq> width wide_state - 1 \<and> (1 :: int) \<noteq> 0 \<and>
           1 = height wide_state - 1" by code_simp
  have w: "width wide_state \<noteq> height wide_state" by code_simp
  have p: "possible_storages wide_state = [(0, 1)]" by code_simp
  from edge_without_storage_bottom [of 1 wide_state 1] h
  have "edge_without_storage (1, 1) wide_state =
          (width wide_state - 1 \<notin> snd ` set (possible_storages wide_state))"
    and "edge_without_storage_symmetric (1, 1) wide_state =
          (height wide_state - 1 \<notin> snd ` set (possible_storages wide_state))"
    by blast+
  then have "edge_without_storage (1, 1) wide_state = True"
    and "edge_without_storage_symmetric (1, 1) wide_state = False"
    unfolding p by (simp_all add: wide_state_def)
  with h w p show ?thesis by (intro conjI) simp_all
qed

section \<open>Variable identity in the model compilers\<close>

lemma variables_add_constraints: "variables (foldl add_constraint p cs) = variables p"
  by (induction cs arbitrary: p) (simp_all add: add_constraint_def)

lemma binary_ne_grid_registered:
  assumes "binary_ne_grid fpuzz_grid h = Inr (p, var_array, h')"
  shows "concat var_array = variables p"
  using assms
  by (auto simp: binary_ne_grid_def py_bind_def variables_add_constraints
           split: sum.splits prod.splits)

text \<open>
  Claim C4 asks that every cell of the returned array holds a variable of the returned
  CSP. \<^verbatim>\<open>binary_ne_grid\<close> does that on the board above: its array is the CSP's variable
  list, row by row. \<^verbatim>\<open>caged_csp_model\<close> does not: the cells \<open>11\<close> and \<open>12\<close> of its
  array hold the variables \<open>4\<close> and \<open>5\<close>, created for the two given cells, while the CSP
  still has the variables \<open>0\<close> to \<open>3\<close> and no constraint has \<open>4\<close> or \<open>5\<close> in its scope.
  The variable \<open>4\<close> carries the name of the variable \<open>0\<close> and the domain \<open>[2]\<close>; the
  variable \<open>0\<close> of the CSP keeps the domain \<open>[1, 2]\<close>.
\<close>

theorem caged_csp_model_unregistered_variable:
  "(case binary_ne_grid given_cells_board empty_heap of
      Inl e \<Rightarrow> False
    | Inr (p, var_array, h) \<Rightarrow>
        variables p = [0, 1, 2, 3] \<and> var_array = [[0, 1], [2, 3]] \<and>
        map scope (constraints p) = [[0, 1], [0, 2], [2, 3], [1, 3]]) \<and>
   (case caged_csp_model given_cells_board empty_heap of
      Inl e \<Rightarrow> False
    | Inr (p, var_array, h) \<Rightarrow>
        variables p = [0, 1, 2, 3] \<and> var_array = [[4, 5], [2, 3]] \<and>
        map scope (constraints p) = [[0, 1], [0, 2], [2, 3], [1, 3], [2, 3]] \<and>
        var_array ! 0 ! 0 \<notin> set (variables p) \<and>
        var_array ! 0 ! 1 \<notin> set (variables p) \<and>
        var_names h (var_array ! 0 ! 0) = ''V11'' \<and> var_names h (variables p ! 0) = ''V11'' \<and>
        original_domain (var_states h (var_array ! 0 ! 0)) = [2] \<and>
        original_domain (var_states h (variables p ! 0)) = [1, 2])"
  by code_simp

end
